theory Spec2Isabelle
  imports Main "HOL-Library.Word" "HOL-Library.Multiset"
begin

unbundle bit_operations_syntax

section \<open>Data model\<close>

text \<open>
  The routines of \<^verbatim>\<open>faiss/utils/partitioning.cpp\<close> work on two parallel caller-owned
  arrays: \<^verbatim>\<open>vals\<close> (scores) and \<^verbatim>\<open>ids\<close> (identifiers), both of length \<^verbatim>\<open>n\<close>.
  Arrays are lists, an in-place store \<^verbatim>\<open>a[wp] = x\<close> is \<open>a[wp := x]\<close>, and each routine
  returns the arrays it leaves behind.  The score type is the 16-bit unsigned
  instantiation (\<^verbatim>\<open>uint16_t\<close>); the \<^verbatim>\<open>float\<close> instantiation is not modelled.
  Counts and indices (\<^verbatim>\<open>size_t\<close>, and \<^verbatim>\<open>int\<close> for lengths) are natural numbers:
  arrays are shorter than \<open>2 ^ 31\<close>, so none of the index arithmetic wraps.
\<close>

type_synonym u16 = "16 word"

text \<open>
  \<^verbatim>\<open>FAISS_THROW_IF_NOT\<close> and \<^verbatim>\<open>FAISS_THROW_FMT\<close> throw a \<^verbatim>\<open>FaissException\<close>;
  \<^verbatim>\<open>assert\<close> aborts; a store outside a caller's array is undefined behaviour
  (\<open>OutOfBounds\<close>).  All three are error values of the model.
\<close>

datatype error = FaissException | AssertionFailure | OutOfBounds

subsection \<open>Order policy\<close>

text \<open>
  The template parameter \<^verbatim>\<open>C\<close> is one of the two comparison policies of
  \<^verbatim>\<open>faiss/utils/ordered_key_value.h\<close>, a header that is not part of the sources at hand.
\<close>

datatype policy = CMax | CMin

text \<open>
  Modelled from the spec: the order policy of \<^verbatim>\<open>ordered_key_value.h\<close>
  (\<^verbatim>\<open>C::cmp\<close>, \<^verbatim>\<open>C::neutral\<close>, \<^verbatim>\<open>C::Crev\<close>, \<^verbatim>\<open>C::is_max\<close>, \<^verbatim>\<open>C::nextafter\<close>).
  \<^verbatim>\<open>C::cmp(thresh, v)\<close> says that \<^verbatim>\<open>v\<close> is strictly better than \<^verbatim>\<open>thresh\<close>: for
  select-smallest (\<open>CMax\<close>) that is \<open>v < thresh\<close>, for select-largest (\<open>CMin\<close>) it is
  \<open>thresh < v\<close>.  \<^verbatim>\<open>C::neutral()\<close> is the policy's sentinel, the upper end of the
  search interval \<open>(Crev::neutral(), neutral())\<close>; \<^verbatim>\<open>nextafter\<close> is the next
  representable value, for 16-bit scores one step up (\<open>CMax\<close>) or down (\<open>CMin\<close>).
\<close>

fun cmp :: "policy \<Rightarrow> u16 \<Rightarrow> u16 \<Rightarrow> bool" where
  "cmp CMax a b = (a > b)"
| "cmp CMin a b = (a < b)"

fun neutral :: "policy \<Rightarrow> u16" where
  "neutral CMax = 0xffff"
| "neutral CMin = 0"

fun Crev :: "policy \<Rightarrow> policy" where
  "Crev CMax = CMin"
| "Crev CMin = CMax"

fun is_max :: "policy \<Rightarrow> bool" where
  "is_max CMax = True"
| "is_max CMin = False"

fun nextafter :: "policy \<Rightarrow> u16 \<Rightarrow> u16" where
  "nextafter CMax x = x + 1"
| "nextafter CMin x = x - 1"

section \<open>Scalar routines\<close>

definition median3 :: "u16 \<Rightarrow> u16 \<Rightarrow> u16 \<Rightarrow> u16" where
  "median3 a0 b0 c =
     (let (a, b) = (if a0 > b0 then (b0, a0) else (a0, b0))
      in if c > b then b else if c > a then c else a)"

definition big_prime :: nat where
  "big_prime = 6700417"

text \<open>
  The sampling loop of \<^verbatim>\<open>sample_threshold_median3\<close>: \<open>is\<close> are the indices still to
  visit, \<open>val3\<close> the samples collected so far; the loop breaks at the third sample.
\<close>

fun sample_loop ::
  "policy \<Rightarrow> u16 list \<Rightarrow> nat \<Rightarrow> u16 \<Rightarrow> u16 \<Rightarrow> nat list \<Rightarrow> u16 list \<Rightarrow> u16 list" where
  "sample_loop C vals n thresh_inf thresh_sup [] val3 = val3"
| "sample_loop C vals n thresh_inf thresh_sup (i # is) val3 =
     (let v = vals ! ((i * big_prime) mod n)
      in if cmp C v thresh_inf \<and> cmp C thresh_sup v
         then (let val3' = val3 @ [v]
               in if length val3' = 3 then val3'
                  else sample_loop C vals n thresh_inf thresh_sup is val3')
         else sample_loop C vals n thresh_inf thresh_sup is val3)"

definition sample_threshold_median3 ::
  "policy \<Rightarrow> u16 list \<Rightarrow> nat \<Rightarrow> u16 \<Rightarrow> u16 \<Rightarrow> u16" where
  "sample_threshold_median3 C vals n thresh_inf thresh_sup =
     (let val3 = sample_loop C vals n thresh_inf thresh_sup [0..<n] []
      in if length val3 = 3 then median3 (val3 ! 0) (val3 ! 1) (val3 ! 2)
         else if length val3 \<noteq> 0 then val3 ! 0
         else thresh_inf)"

text \<open>\<^verbatim>\<open>count_lt_and_eq\<close>: one pass, returning \<open>(n_lt, n_eq)\<close>.\<close>

definition count_step :: "policy \<Rightarrow> u16 \<Rightarrow> u16 \<Rightarrow> nat \<times> nat \<Rightarrow> nat \<times> nat" where
  "count_step C thresh v = (\<lambda>(n_lt, n_eq).
     if cmp C thresh v then (n_lt + 1, n_eq)
     else if v = thresh then (n_lt, n_eq + 1)
     else (n_lt, n_eq))"

definition count_lt_and_eq :: "policy \<Rightarrow> u16 list \<Rightarrow> nat \<Rightarrow> u16 \<Rightarrow> nat \<times> nat" where
  "count_lt_and_eq C vals n thresh =
     fold (\<lambda>i. count_step C thresh (vals ! i)) [0..<n] (0, 0)"

text \<open>
  \<^verbatim>\<open>compress_array\<close>: the state of the loop is the two arrays, the write position
  \<open>wp\<close> and the remaining budget \<open>n_eq\<close> of values equal to the threshold.  The final
  \<^verbatim>\<open>assert(n_eq == 0)\<close> is the only way to fail.
\<close>

type_synonym 'i cstate = "u16 list \<times> 'i list \<times> nat \<times> nat"

definition keep :: "nat \<Rightarrow> nat \<Rightarrow> 'i cstate \<Rightarrow> 'i cstate" where
  "keep i dec = (\<lambda>(vals, ids, wp, n_eq).
     (vals[wp := vals ! i], ids[wp := ids ! i], wp + 1, n_eq - dec))"

definition compress_step :: "policy \<Rightarrow> u16 \<Rightarrow> nat \<Rightarrow> 'i cstate \<Rightarrow> 'i cstate" where
  "compress_step C thresh i = (\<lambda>(vals, ids, wp, n_eq).
     if cmp C thresh (vals ! i) then keep i 0 (vals, ids, wp, n_eq)
     else if n_eq > 0 \<and> vals ! i = thresh then keep i 1 (vals, ids, wp, n_eq)
     else (vals, ids, wp, n_eq))"

definition compress_array ::
  "policy \<Rightarrow> u16 list \<Rightarrow> 'i list \<Rightarrow> nat \<Rightarrow> u16 \<Rightarrow> nat \<Rightarrow> error + (u16 list \<times> 'i list \<times> nat)" where
  "compress_array C vals ids n thresh n_eq =
     (case fold (compress_step C thresh) [0..<n] (vals, ids, 0, n_eq) of
        (vals', ids', wp, n_eq') \<Rightarrow>
          if n_eq' = 0 then Inr (vals', ids', wp) else Inl AssertionFailure)"

text \<open>
  The bisection loop of \<^verbatim>\<open>partition_fuzzy_median3\<close>.  The first argument counts the
  iterations left of the 200; the result is \<open>(thresh, n_lt, n_eq, q)\<close> as the loop
  leaves them, \<open>q\<close> still \<open>0\<close> when no \<^verbatim>\<open>break\<close> set it.
\<close>

fun bisect ::
  "nat \<Rightarrow> policy \<Rightarrow> u16 list \<Rightarrow> nat \<Rightarrow> nat \<Rightarrow> nat \<Rightarrow> u16 \<Rightarrow> u16 \<Rightarrow> u16 \<Rightarrow> nat \<times> nat
     \<Rightarrow> u16 \<times> nat \<times> nat \<times> nat" where
  "bisect 0 C vals n q_min q_max thresh_inf thresh_sup thresh (n_lt, n_eq) =
     (thresh, n_lt, n_eq, 0)"
| "bisect (Suc it) C vals n q_min q_max thresh_inf thresh_sup thresh old =
     (let (n_lt, n_eq) = count_lt_and_eq C vals n thresh
      in if n_lt \<le> q_min then
           (if n_lt + n_eq \<ge> q_min then (thresh, n_lt, n_eq, q_min)
            else
              (let new_thresh = sample_threshold_median3 C vals n thresh thresh_sup
               in if new_thresh = thresh then (thresh, n_lt, n_eq, 0)
                  else bisect it C vals n q_min q_max thresh thresh_sup new_thresh
                         (n_lt, n_eq)))
         else if n_lt \<le> q_max then (thresh, n_lt, n_eq, n_lt)
         else
           (let new_thresh = sample_threshold_median3 C vals n thresh_inf thresh
            in if new_thresh = thresh_inf then (thresh, n_lt, n_eq, 0)
               else bisect it C vals n q_min q_max thresh_inf thresh new_thresh
                      (n_lt, n_eq)))"

text \<open>
  \<^verbatim>\<open>partition_fuzzy_median3\<close> returns the threshold, the value stored through
  \<^verbatim>\<open>q_out\<close> and the two arrays.  In the \<^verbatim>\<open>q_min == 0\<close> shortcut the source stores
  \<^verbatim>\<open>C::Crev::neutral()\<close> through \<^verbatim>\<open>q_out\<close> and returns \<^verbatim>\<open>0\<close>.
\<close>

type_synonym 'i presult = "error + (u16 \<times> nat \<times> u16 list \<times> 'i list)"

definition partition_fuzzy_median3 ::
  "policy \<Rightarrow> u16 list \<Rightarrow> 'i list \<Rightarrow> nat \<Rightarrow> nat \<Rightarrow> nat \<Rightarrow> 'i presult" where
  "partition_fuzzy_median3 C vals ids n q_min q_max =
     (if q_min = 0 then Inr (0, unat (neutral (Crev C)), vals, ids)
      else if q_max \<ge> n then Inr (neutral C, q_max, vals, ids)
      else if \<not> n \<ge> 3 then Inl FaissException
      else
        (let thresh0 = median3 (vals ! 0) (vals ! (n div 2)) (vals ! (n - 1));
             (thresh1, n_lt, n_eq, q1) =
                bisect 200 C vals n q_min q_max (neutral (Crev C)) (neutral C) thresh0 (0, 0);
             n_eq_1 = int q1 - int n_lt;
             neg = (n_eq_1 < 0);
             q = (if neg then q_min else q1);
             thresh = (if neg then nextafter (Crev C) thresh1 else thresh1);
             n_eq_1' = (if neg then int q else n_eq_1)
         in if \<not> neg \<and> \<not> n_eq_1' \<le> int n_eq then Inl AssertionFailure
            else
              (case compress_array C vals ids n thresh (nat n_eq_1') of
                 Inl e \<Rightarrow> Inl e
               | Inr (vals', ids', wp) \<Rightarrow>
                   if wp = q then Inr (thresh, q, vals', ids') else Inl AssertionFailure)))"

section \<open>Vector routines for 16-bit scores\<close>

subsection \<open>Vector registers\<close>

text \<open>
  Modelled from the spec: the fixed-width lane primitives of \<^verbatim>\<open>faiss/utils/simdlib.h\<close>
  and the AVX2 intrinsics the source calls directly; the header is not part of the
  sources at hand.  A \<^verbatim>\<open>simd16uint16\<close> register is the list of its sixteen 16-bit lanes,
  lane 0 first; seen as \<^verbatim>\<open>simd32uint8\<close> it is the list of its 32 bytes, the low byte of
  each lane first.
\<close>

type_synonym u8 = "8 word"
type_synonym u32 = "32 word"
type_synonym simd16uint16 = "u16 list"
type_synonym simd32uint8 = "u8 list"

definition set1 :: "u16 \<Rightarrow> simd16uint16" where
  "set1 x = replicate 16 x"

definition load :: "u16 list \<Rightarrow> nat \<Rightarrow> simd16uint16" where
  "load vals i = take 16 (drop i vals)"

definition accu_min :: "simd16uint16 \<Rightarrow> simd16uint16 \<Rightarrow> simd16uint16" where
  "accu_min a b = map2 min a b"

definition accu_max :: "simd16uint16 \<Rightarrow> simd16uint16 \<Rightarrow> simd16uint16" where
  "accu_max a b = map2 max a b"

text \<open>Lane-wise equality (\<^verbatim>\<open>operator==\<close>): all ones where the lanes agree.\<close>

definition lanes_eq :: "simd16uint16 \<Rightarrow> simd16uint16 \<Rightarrow> simd16uint16" where
  "lanes_eq a b = map2 (\<lambda>x y. if x = y then 0xffff else 0) a b"

definition to_bytes :: "simd16uint16 \<Rightarrow> simd32uint8" where
  "to_bytes a = concat (map (\<lambda>x. [ucast x, ucast (drop_bit 8 x)]) a)"

text \<open>\<^verbatim>\<open>_mm256_packs_epi16\<close>: signed saturation to bytes, within each 128-bit half.\<close>

definition sat8 :: "u16 \<Rightarrow> u8" where
  "sat8 x = (if sint x > 127 then 127 else if sint x < - 128 then 128 else ucast x)"

definition packs_epi16 :: "simd16uint16 \<Rightarrow> simd16uint16 \<Rightarrow> simd32uint8" where
  "packs_epi16 a b = map sat8 (take 8 a @ take 8 b @ drop 8 a @ drop 8 b)"

text \<open>\<^verbatim>\<open>_mm256_blendv_epi8\<close>: byte of \<open>b\<close> where the mask byte has its top bit set.\<close>

definition blendv_epi8 :: "simd32uint8 \<Rightarrow> simd32uint8 \<Rightarrow> simd32uint8 \<Rightarrow> simd32uint8" where
  "blendv_epi8 a b m = map (\<lambda>(x, y, k). if bit k 7 then y else x) (zip a (zip b m))"

text \<open>\<^verbatim>\<open>_mm256_movemask_epi8\<close>: bit \<open>i\<close> of the result is the top bit of byte \<open>i\<close>.\<close>

definition movemask_epi8 :: "simd32uint8 \<Rightarrow> u32" where
  "movemask_epi8 bs = horner_sum of_bool 2 (map (\<lambda>x. bit x 7) bs)"

definition popcount :: "u32 \<Rightarrow> nat" where
  "popcount w = length (filter (bit w) [0..<32])"

definition ctz :: "u32 \<Rightarrow> nat" where
  "ctz w = length (takeWhile (\<lambda>i. \<not> bit w i) [0..<32])"

subsection \<open>Minimum and maximum\<close>

definition find_minimax :: "u16 list \<Rightarrow> nat \<Rightarrow> u16 \<times> u16" where
  "find_minimax vals n =
     (let (vmin, vmax) =
            fold (\<lambda>i (vmin, vmax). let v = load vals i in (accu_min vmin v, accu_max vmax v))
              (map (\<lambda>b. 16 * b) [0..<n div 16]) (set1 0xffff, set1 0);
          tab32 = vmin @ vmax;
          (smin, smax) =
            fold (\<lambda>i (smin, smax). (min smin (tab32 ! i), max smax (tab32 ! (i + 16))))
              [1..<16] (tab32 ! 0, tab32 ! 16)
      in fold (\<lambda>i (smin, smax). (min smin (vals ! i), max smax (vals ! i)))
           [16 * (n div 16)..<n] (smin, smax))"

subsection \<open>Counting\<close>

text \<open>\<^verbatim>\<open>max_func\<close> tells \<open>CMax\<close> from \<open>CMin\<close> through \<^verbatim>\<open>C::is_max\<close>.\<close>

definition max_func :: "policy \<Rightarrow> simd16uint16 \<Rightarrow> simd16uint16 \<Rightarrow> simd16uint16" where
  "max_func C v thr16 = (if is_max C then map2 max v thr16 else map2 min v thr16)"

text \<open>One 16-lane block of the vector loop of \<^verbatim>\<open>count_lt_and_eq\<close>.\<close>

definition simd_count_block ::
  "policy \<Rightarrow> simd16uint16 \<Rightarrow> u16 list \<Rightarrow> nat \<Rightarrow> nat \<times> nat \<Rightarrow> nat \<times> nat" where
  "simd_count_block C thr16 vals i = (\<lambda>(n_lt, n_eq).
     let v = load vals (16 * i);
         eqmask = lanes_eq v thr16;
         max2 = max_func C v thr16;
         gemask = lanes_eq v max2;
         bits = movemask_epi8 (packs_epi16 eqmask gemask);
         i_eq = popcount (bits AND 0x00ff00ff);
         i_ge = popcount bits - i_eq
     in (n_lt + (16 - i_ge), n_eq + i_eq))"

definition simd_count_lt_and_eq :: "policy \<Rightarrow> u16 list \<Rightarrow> nat \<Rightarrow> u16 \<Rightarrow> nat \<times> nat" where
  "simd_count_lt_and_eq C vals n thresh =
     (let thr16 = set1 thresh;
          n1 = n div 16;
          acc = fold (simd_count_block C thr16 vals) [0..<n1] (0, 0)
      in fold (\<lambda>i. count_step C thresh (vals ! i)) [n1 * 16..<n] acc)"

subsection \<open>Compaction\<close>

text \<open>
  The inner \<^verbatim>\<open>while (bits)\<close> loops of \<^verbatim>\<open>simd_compress_array\<close> clear one pair of bits
  per round, so they stop; the three lemmas below are their termination argument.
\<close>

lemma takeWhile_stops:
  assumes "x \<in> set xs" "\<not> P x"
  shows "length (takeWhile P xs) < length xs \<and> \<not> P (xs ! length (takeWhile P xs))"
proof -
  have ne: "takeWhile P xs \<noteq> xs"
    using assms by auto
  have l: "length (takeWhile P xs) < length xs"
  proof (rule ccontr)
    assume "\<not> length (takeWhile P xs) < length xs"
    then have "length (takeWhile P xs) = length xs"
      using length_takeWhile_le [of P xs] by linarith
    then have "takeWhile P xs = xs"
      using takeWhile_eq_take [of P xs] by simp
    with ne show False by simp
  qed
  with nth_length_takeWhile [OF l] show ?thesis by simp
qed

lemma ctz_bit:
  assumes "w \<noteq> 0"
  shows "ctz w < 32 \<and> bit w (ctz w)"
proof -
  have "\<exists>i<32. bit w i"
  proof (rule ccontr)
    assume a: "\<not> (\<exists>i<32. bit w i)"
    have "w = 0"
    proof (rule bit_word_eqI)
      fix n assume "n < LENGTH(32)"
      with a show "bit w n = bit (0::u32) n" by simp
    qed
    with assms show False by simp
  qed
  then obtain i where i: "bit w i" "i < 32" by blast
  define xs :: "nat list" where "xs = [0..<32]"
  have "i \<in> set xs" using i by (simp add: xs_def)
  from takeWhile_stops [of i xs "\<lambda>i. \<not> bit w i"] this i(1)
  have l: "length (takeWhile (\<lambda>i. \<not> bit w i) xs) < length xs"
    and b: "bit w (xs ! length (takeWhile (\<lambda>i. \<not> bit w i) xs))" by simp_all
  have "xs ! length (takeWhile (\<lambda>i. \<not> bit w i) xs) = length (takeWhile (\<lambda>i. \<not> bit w i) xs)"
    using l unfolding xs_def by (metis add_0 length_upt minus_nat.diff_0 nth_upt)
  with l b show ?thesis
    by (simp add: ctz_def xs_def)
qed

lemma bit_pair_mask:
  "c = j \<or> c = Suc j \<Longrightarrow> c < 32 \<Longrightarrow> bit (push_bit j (3::u32)) c"
proof -
  have b0: "bit (3::u32) 0" by simp
  have b1: "bit (3::u32) (Suc 0)" by (simp add: bit_iff_odd_drop_bit drop_bit_eq_div)
  show "c = j \<or> c = Suc j \<Longrightarrow> c < 32 \<Longrightarrow> bit (push_bit j (3::u32)) c"
    using b0 b1
    by (auto simp only: bit_push_bit_iff diff_self_eq_0 diff_Suc_Suc le_refl le_Suc_eq
        len_bit0 len_num1 mult_1_right diff_Suc_diff_eq1 Suc_diff_le minus_nat.diff_0
        possible_bit_word)
qed

lemma clear_pair_less:
  assumes "w \<noteq> (0::u32)" "j \<le> ctz w" "ctz w \<le> j + 1"
  shows "unat (w AND NOT (push_bit j 3)) < unat w"
proof -
  have b: "bit w (ctz w)" "ctz w < 32" using ctz_bit [OF assms(1)] by simp_all
  have "ctz w = j \<or> ctz w = Suc j" using assms(2,3) by arith
  then have "bit (push_bit j (3::u32)) (ctz w)"
    using b(2) by (rule bit_pair_mask)
  then have "\<not> bit (w AND NOT (push_bit j 3)) (ctz w)"
    by (simp add: bit_and_iff bit_not_iff)
  then have "w AND NOT (push_bit j 3) \<noteq> w" using b(1) by metis
  moreover have "w AND NOT (push_bit j 3) \<le> w" by (rule word_and_le2)
  ultimately have "w AND NOT (push_bit j 3) < w" by simp
  then show ?thesis by (simp only: word_less_nat_alt)
qed

text \<open>
  First block loop (there are still equal values to collect): bit \<open>2 * j\<close> of \<open>bits\<close>
  says that lane \<open>j\<close> equals the threshold, bit \<open>2 * j + 1\<close> that it is strictly better.
\<close>

function collect_eq_lt :: "u32 \<Rightarrow> nat \<Rightarrow> 'i cstate \<Rightarrow> 'i cstate" where
  "collect_eq_lt bits i0 (vals, ids, wp, n_eq) =
     (if bits = 0 then (vals, ids, wp, n_eq)
      else
        (let j = 2 * (ctz bits div 2);
             is_eq = bit bits j;
             is_lt = bit bits (j + 1);
             bits' = bits AND NOT (push_bit j 3);
             j' = j div 2
         in collect_eq_lt bits' i0
              (if is_lt then keep (i0 + j') 0 (vals, ids, wp, n_eq)
               else if is_eq \<and> n_eq > 0 then keep (i0 + j') 1 (vals, ids, wp, n_eq)
               else (vals, ids, wp, n_eq))))"
  by pat_completeness auto
termination
proof (relation "measure (\<lambda>(bits, i0, st). unat bits)", goal_cases)
  case 1
  show ?case by simp
next
  case (2 bits i0 vals ids wp n_eq)
  then show ?case
    using clear_pair_less [of bits "2 * (ctz bits div 2)"]
    by (auto simp: keep_def)
qed

text \<open>Second block loop (only strictly better values are left to collect).\<close>

function collect_lt :: "u32 \<Rightarrow> nat \<Rightarrow> 'i cstate \<Rightarrow> 'i cstate" where
  "collect_lt bits i0 st =
     (if bits = 0 then st
      else
        (let j = ctz bits;
             bits' = bits AND NOT (push_bit j 3);
             j' = j div 2
         in collect_lt bits' i0 (keep (i0 + j') 0 st)))"
  by pat_completeness auto
termination
proof (relation "measure (\<lambda>(bits, i0, st). unat bits)", goal_cases)
  case 1
  show ?case by simp
next
  case (2 bits i0 st)
  then show ?case
    using clear_pair_less [of bits "ctz bits"] by simp
qed

definition compress_block1 ::
  "policy \<Rightarrow> simd16uint16 \<Rightarrow> simd16uint16 \<Rightarrow> nat \<Rightarrow> 'i cstate \<Rightarrow> 'i cstate" where
  "compress_block1 C thr16 mixmask i0 = (\<lambda>(vals, ids, wp, n_eq).
     let v = load vals i0;
         max2 = max_func C v thr16;
         gemask = lanes_eq v max2;
         eqmask = lanes_eq v thr16;
         bits = movemask_epi8
                  (blendv_epi8 (to_bytes eqmask) (to_bytes gemask) (to_bytes mixmask))
                XOR 0xAAAAAAAA
     in collect_eq_lt bits i0 (vals, ids, wp, n_eq))"

definition compress_block2 ::
  "policy \<Rightarrow> simd16uint16 \<Rightarrow> nat \<Rightarrow> 'i cstate \<Rightarrow> 'i cstate" where
  "compress_block2 C thr16 i0 = (\<lambda>(vals, ids, wp, n_eq).
     let v = load vals i0;
         max2 = max_func C v thr16;
         gemask = lanes_eq v max2;
         bits = NOT (movemask_epi8 (to_bytes gemask))
     in collect_lt bits i0 (vals, ids, wp, n_eq))"

function compress_loop1 ::
  "policy \<Rightarrow> simd16uint16 \<Rightarrow> simd16uint16 \<Rightarrow> nat \<Rightarrow> nat \<Rightarrow> 'i cstate \<Rightarrow> nat \<times> 'i cstate" where
  "compress_loop1 C thr16 mixmask n i0 (vals, ids, wp, n_eq) =
     (if i0 + 15 < n \<and> n_eq > 0
      then compress_loop1 C thr16 mixmask n (i0 + 16)
             (compress_block1 C thr16 mixmask i0 (vals, ids, wp, n_eq))
      else (i0, (vals, ids, wp, n_eq)))"
  by pat_completeness auto
termination
  by (relation "measure (\<lambda>(C, thr16, mixmask, n, i0, st). n - i0)") auto

function compress_loop2 ::
  "policy \<Rightarrow> simd16uint16 \<Rightarrow> nat \<Rightarrow> nat \<Rightarrow> 'i cstate \<Rightarrow> 'i cstate" where
  "compress_loop2 C thr16 n i0 st =
     (if i0 + 15 < n
      then compress_loop2 C thr16 n (i0 + 16) (compress_block2 C thr16 i0 st)
      else st)"
  by pat_completeness auto
termination
  by (relation "measure (\<lambda>(C, thr16, n, i0, st). n - i0)") auto

definition compress_tail_step :: "policy \<Rightarrow> u16 \<Rightarrow> nat \<Rightarrow> 'i cstate \<Rightarrow> 'i cstate" where
  "compress_tail_step C thresh i = (\<lambda>(vals, ids, wp, n_eq).
     if cmp C thresh (vals ! i) then keep i 0 (vals, ids, wp, n_eq)
     else if vals ! i = thresh \<and> n_eq > 0 then keep i 1 (vals, ids, wp, n_eq)
     else (vals, ids, wp, n_eq))"

definition simd_compress_array ::
  "policy \<Rightarrow> u16 list \<Rightarrow> 'i list \<Rightarrow> nat \<Rightarrow> u16 \<Rightarrow> nat \<Rightarrow> error + (u16 list \<times> 'i list \<times> nat)" where
  "simd_compress_array C vals ids n thresh n_eq =
     (let thr16 = set1 thresh;
          mixmask = set1 0xff00;
          (i0, st1) = compress_loop1 C thr16 mixmask n 0 (vals, ids, 0, n_eq);
          st2 = compress_loop2 C thr16 n i0 st1
      in case fold (compress_tail_step C thresh) [16 * (n div 16)..<n] st2 of
           (vals', ids', wp, n_eq') \<Rightarrow>
             if n_eq' = 0 then Inr (vals', ids', wp) else Inl AssertionFailure)"

subsection \<open>Partition on a bounded value range\<close>

text \<open>
  The loop of \<^verbatim>\<open>simd_partition_fuzzy_with_bounds\<close>: binary search on the range
  \<open>[s0, s1)\<close>.  The result is \<open>(s0, s1, thresh, n_lt, n_eq, q)\<close> as the loop leaves them.
\<close>

fun simd_bisect ::
  "nat \<Rightarrow> policy \<Rightarrow> u16 list \<Rightarrow> nat \<Rightarrow> nat \<Rightarrow> nat \<Rightarrow> nat \<Rightarrow> nat \<Rightarrow> int \<times> nat \<times> nat
     \<Rightarrow> nat \<times> nat \<times> int \<times> nat \<times> nat \<times> nat" where
  "simd_bisect 0 C vals n q_min q_max s0 s1 (thresh, n_lt, n_eq) =
     (s0, s1, thresh, n_lt, n_eq, 0)"
| "simd_bisect (Suc it) C vals n q_min q_max s0 s1 old =
     (let thresh = (s0 + s1) div 2;
          (n_lt, n_eq) = simd_count_lt_and_eq C vals n (of_nat thresh)
      in if n_lt \<le> q_min then
           (if n_lt + n_eq \<ge> q_min then (s0, s1, int thresh, n_lt, n_eq, q_min)
            else if is_max C
              then simd_bisect it C vals n q_min q_max thresh s1 (int thresh, n_lt, n_eq)
              else simd_bisect it C vals n q_min q_max s0 thresh (int thresh, n_lt, n_eq))
         else if n_lt \<le> q_max then (s0, s1, int thresh, n_lt, n_eq, n_lt)
         else if is_max C
           then simd_bisect it C vals n q_min q_max s0 thresh (int thresh, n_lt, n_eq)
           else simd_bisect it C vals n q_min q_max thresh s1 (int thresh, n_lt, n_eq))"

definition simd_partition_fuzzy_with_bounds ::
  "policy \<Rightarrow> u16 list \<Rightarrow> 'i list \<Rightarrow> nat \<Rightarrow> nat \<Rightarrow> nat \<Rightarrow> u16 \<Rightarrow> u16 \<Rightarrow> 'i presult" where
  "simd_partition_fuzzy_with_bounds C vals ids n q_min q_max s0i s1i =
     (if q_min = 0 then Inr (0, 0, vals, ids)
      else if q_max \<ge> n then Inr (0xffff, q_max, vals, ids)
      else if s0i = s1i then Inr (s0i, q_min, vals, ids)
      else
        (let (s0, s1, thresh1, n_lt, n_eq, q1) =
                simd_bisect 200 C vals n q_min q_max (unat s0i) (unat s1i + 1) (0, 0, 0);
             n_eq_1 = int q1 - int n_lt;
             neg = (n_eq_1 < 0);
             q = (if neg then q_min else q1);
             thresh = (if neg then (if is_max C then thresh1 - 1 else thresh1 + 1) else thresh1);
             n_eq_1' = (if neg then int q else n_eq_1)
         in if neg \<and> \<not> s0 + 1 = s1 then Inl AssertionFailure
            else if \<not> neg \<and> \<not> n_eq_1' \<le> int n_eq then Inl AssertionFailure
            else
              (case simd_compress_array C vals ids n (word_of_int thresh) (nat n_eq_1') of
                 Inl e \<Rightarrow> Inl e
               | Inr (vals', ids', wp) \<Rightarrow>
                   if wp = q then Inr (word_of_int thresh, q, vals', ids')
                   else Inl AssertionFailure)))"

definition simd_partition_fuzzy ::
  "policy \<Rightarrow> u16 list \<Rightarrow> 'i list \<Rightarrow> nat \<Rightarrow> nat \<Rightarrow> nat \<Rightarrow> 'i presult" where
  "simd_partition_fuzzy C vals ids n q_min q_max =
     (let (s0i, s1i) = find_minimax vals n
      in simd_partition_fuzzy_with_bounds C vals ids n q_min q_max s0i s1i)"

section \<open>Driver\<close>

text \<open>
  \<^verbatim>\<open>partition_fuzzy\<close> takes the vector path when the build has AVX2, the scores are
  \<^verbatim>\<open>uint16_t\<close> and the buffer is aligned (\<open>aligned\<close>), the scalar path otherwise.
\<close>

definition partition_fuzzy ::
  "policy \<Rightarrow> bool \<Rightarrow> u16 list \<Rightarrow> 'i list \<Rightarrow> nat \<Rightarrow> nat \<Rightarrow> nat \<Rightarrow> 'i presult" where
  "partition_fuzzy C aligned vals ids n q_min q_max =
     (if aligned then simd_partition_fuzzy C vals ids n q_min q_max
      else partition_fuzzy_median3 C vals ids n q_min q_max)"

text \<open>
  \<^verbatim>\<open>simd_partition\<close>, the exact form of the vector path.  The source passes no
  \<^verbatim>\<open>q_out\<close>; the model keeps the count the bounded routine computes.
\<close>

definition simd_partition ::
  "policy \<Rightarrow> u16 list \<Rightarrow> 'i list \<Rightarrow> nat \<Rightarrow> nat \<Rightarrow> 'i presult" where
  "simd_partition C vals ids n q =
     (if q = 0 then Inr (0, 0, vals, ids)
      else if q \<ge> n then Inr (0xffff, q, vals, ids)
      else
        (let (s0i, s1i) = find_minimax vals n
         in simd_partition_fuzzy_with_bounds C vals ids n q q s0i s1i))"

text \<open>
  Modelled from the spec: \<^verbatim>\<open>partition(values, identifiers, n, q)\<close>, the convenience form
  with \<open>q_min = q_max = q\<close>; its definition is in \<^verbatim>\<open>partitioning.h\<close>, which is not part
  of the sources at hand.
\<close>

definition partition ::
  "policy \<Rightarrow> bool \<Rightarrow> u16 list \<Rightarrow> 'i list \<Rightarrow> nat \<Rightarrow> nat \<Rightarrow> 'i presult" where
  "partition C aligned vals ids n q = partition_fuzzy C aligned vals ids n q q"

section \<open>Histogram routines\<close>

subsection \<open>Lane arithmetic\<close>

text \<open>
  Modelled from the spec: the lane operators of \<^verbatim>\<open>faiss/utils/simdlib.h\<close> that the
  histogram routines use (\<^verbatim>\<open>&\<close>, \<^verbatim>\<open>|\<close>, \<^verbatim>\<open>+\<close>, \<^verbatim>\<open>-\<close>, \<^verbatim>\<open><<\<close>, \<^verbatim>\<open>>>\<close>, \<^verbatim>\<open>lookup_2_lanes\<close>, the
  reading of a register as 16-bit lanes or as bytes) and the AVX2 intrinsics they call
  directly (\<^verbatim>\<open>_mm256_srai_epi16\<close>, \<^verbatim>\<open>_mm256_hadd_epi16\<close>, \<^verbatim>\<open>_mm256_xor_si256\<close>, the
  permutes of the 16-bin routine); the header is not part of the sources at hand.
  Each is the elementwise operation over fixed-width lanes that its name says.
\<close>

definition and16 :: "simd16uint16 \<Rightarrow> simd16uint16 \<Rightarrow> simd16uint16" where
  "and16 a b = map2 (AND) a b"

definition or16 :: "simd16uint16 \<Rightarrow> simd16uint16 \<Rightarrow> simd16uint16" where
  "or16 a b = map2 (OR) a b"

definition xor16 :: "simd16uint16 \<Rightarrow> simd16uint16 \<Rightarrow> simd16uint16" where
  "xor16 a b = map2 (XOR) a b"

definition add16 :: "simd16uint16 \<Rightarrow> simd16uint16 \<Rightarrow> simd16uint16" where
  "add16 a b = map2 (+) a b"

definition sub16 :: "simd16uint16 \<Rightarrow> simd16uint16 \<Rightarrow> simd16uint16" where
  "sub16 a b = map2 (-) a b"

definition shl16 :: "simd16uint16 \<Rightarrow> nat \<Rightarrow> simd16uint16" where
  "shl16 a k = map (push_bit k) a"

definition shr16 :: "simd16uint16 \<Rightarrow> nat \<Rightarrow> simd16uint16" where
  "shr16 a k = map (drop_bit k) a"

definition srai_epi16 :: "simd16uint16 \<Rightarrow> nat \<Rightarrow> simd16uint16" where
  "srai_epi16 a k = map (signed_drop_bit k) a"

definition add8 :: "simd32uint8 \<Rightarrow> simd32uint8 \<Rightarrow> simd32uint8" where
  "add8 a b = map2 (+) a b"

definition and8 :: "simd32uint8 \<Rightarrow> simd32uint8 \<Rightarrow> simd32uint8" where
  "and8 a b = map2 (AND) a b"

definition set1_8 :: "u8 \<Rightarrow> simd32uint8" where
  "set1_8 x = replicate 32 x"

fun from_bytes :: "simd32uint8 \<Rightarrow> simd16uint16" where
  "from_bytes (lo # hi # bs) = (ucast lo OR push_bit 8 (ucast hi)) # from_bytes bs"
| "from_bytes bs = []"

text \<open>\<^verbatim>\<open>_mm256_hadd_epi16\<close>: sums of adjacent lanes, within each 128-bit half.\<close>

definition hadd_half :: "u16 list \<Rightarrow> u16 list" where
  "hadd_half x = [x ! 0 + x ! 1, x ! 2 + x ! 3, x ! 4 + x ! 5, x ! 6 + x ! 7]"

definition hadd_epi16 :: "simd16uint16 \<Rightarrow> simd16uint16 \<Rightarrow> simd16uint16" where
  "hadd_epi16 a b =
     hadd_half (take 8 a) @ hadd_half (take 8 b) @ hadd_half (drop 8 a) @ hadd_half (drop 8 b)"

text \<open>
  \<^verbatim>\<open>lookup_2_lanes\<close> (\<^verbatim>\<open>_mm256_shuffle_epi8\<close>): byte \<open>p\<close> of the result is \<open>0\<close> when the
  index byte has its top bit set, else the table byte of the same 128-bit half that
  the low four index bits select.
\<close>

definition lookup_2_lanes :: "simd32uint8 \<Rightarrow> simd32uint8 \<Rightarrow> simd32uint8" where
  "lookup_2_lanes table idx =
     map (\<lambda>p. if bit (idx ! p) 7 then 0
              else table ! (16 * (p div 16) + unat ((idx ! p) AND 0x0f))) [0..<32]"

subsection \<open>Histogram, 8 bins\<close>

definition accu4to8 :: "simd16uint16 \<Rightarrow> simd32uint8" where
  "accu4to8 a4 =
     (let mask4 = set1 0x0f0f;
          a8_0 = and16 a4 mask4;
          a8_1 = and16 (shr16 a4 4) mask4
      in to_bytes (hadd_epi16 a8_0 a8_1))"

definition accu8to16 :: "simd32uint8 \<Rightarrow> simd16uint16" where
  "accu8to16 a8 =
     (let mask8 = set1 0x00ff;
          a8_0 = and16 (from_bytes a8) mask8;
          a8_1 = and16 (shr16 (from_bytes a8) 8) mask8
      in hadd_epi16 a8_0 a8_1)"

definition shifts :: simd32uint8 where
  "shifts = [1, 16, 0, 0, 4, 64, 0, 0, 0, 0, 1, 16, 0, 0, 4, 64,
             1, 16, 0, 0, 4, 64, 0, 0, 0, 0, 1, 16, 0, 0, 4, 64]"

text \<open>
  The preprocessing functors: \<^verbatim>\<open>PreprocNOP\<close> and \<^verbatim>\<open>PreprocMinShift<shift>\<close>, each with
  its \<^verbatim>\<open>do_clip()\<close>.
\<close>

datatype preproc = PreprocNOP | PreprocMinShift nat u16

fun pp_apply :: "preproc \<Rightarrow> simd16uint16 \<Rightarrow> simd16uint16" where
  "pp_apply PreprocNOP x = x"
| "pp_apply (PreprocMinShift shift m) x = srai_epi16 (sub16 x (set1 m)) shift"

fun do_clip :: "preproc \<Rightarrow> bool" where
  "do_clip PreprocNOP = False"
| "do_clip (PreprocMinShift shift m) = True"

text \<open>
  \<^verbatim>\<open>compute_accu2<N>\<close>: the state is the read position in \<open>data\<close> and the two 4-bit
  accumulators.
\<close>

definition accu2_step :: "preproc \<Rightarrow> u16 list \<Rightarrow> nat \<Rightarrow> nat \<times> simd16uint16 \<Rightarrow> nat \<times> simd16uint16" where
  "accu2_step pp data j = (\<lambda>(pos, a2).
     let v = pp_apply pp (load data pos);
         idx = or16 (or16 v (shl16 v 8)) (set1 0x800)
     in (pos + 16, add16 a2 (from_bytes (lookup_2_lanes shifts (to_bytes idx)))))"

definition compute_accu2 ::
  "nat \<Rightarrow> preproc \<Rightarrow> u16 list \<Rightarrow> nat \<times> simd16uint16 \<times> simd16uint16
     \<Rightarrow> nat \<times> simd16uint16 \<times> simd16uint16" where
  "compute_accu2 N pp data = (\<lambda>(pos, a4lo, a4hi).
     let mask2 = set1 0x3333;
         (pos', a2) = fold (accu2_step pp data) [0..<N] (pos, set1 0)
     in (pos', add16 a4lo (and16 a2 mask2), add16 a4hi (and16 (shr16 a2 2) mask2)))"

function accu2_triples ::
  "preproc \<Rightarrow> u16 list \<Rightarrow> nat \<Rightarrow> nat \<Rightarrow> nat \<times> simd16uint16 \<times> simd16uint16
     \<Rightarrow> nat \<times> nat \<times> simd16uint16 \<times> simd16uint16" where
  "accu2_triples pp data i i1 st =
     (if i + 2 < i1 then accu2_triples pp data (i + 3) i1 (compute_accu2 3 pp data st)
      else (i, st))"
  by pat_completeness auto
termination
  by (relation "measure (\<lambda>(pp, data, i, i1, st). i1 - i)") auto

function histogram_8_loop ::
  "preproc \<Rightarrow> u16 list \<Rightarrow> nat \<Rightarrow> nat \<Rightarrow> nat \<times> simd32uint8 \<times> simd32uint8
     \<Rightarrow> nat \<times> simd32uint8 \<times> simd32uint8" where
  "histogram_8_loop pp data n i0 (pos, a8lo, a8hi) =
     (if i0 < n then
        (let i1 = min (i0 + 15) n;
             (i, st) = accu2_triples pp data i0 i1 (pos, set1 0, set1 0);
             (pos', a4lo, a4hi) =
                (if i1 - i = 2 then compute_accu2 2 pp data st
                 else if i1 - i = 1 then compute_accu2 1 pp data st
                 else st)
         in histogram_8_loop pp data n (i0 + 15)
              (pos', add8 a8lo (accu4to8 a4lo), add8 a8hi (accu4to8 a4hi)))
      else (pos, a8lo, a8hi))"
  by pat_completeness auto
termination
  by (relation "measure (\<lambda>(pp, data, n, i0, st). n - i0)") auto

text \<open>\<^verbatim>\<open>histogram_8\<close>; the source asserts that \<open>n_in\<close> is a multiple of 16.\<close>

definition histogram_8 :: "u16 list \<Rightarrow> preproc \<Rightarrow> nat \<Rightarrow> error + simd16uint16" where
  "histogram_8 data pp n_in =
     (if \<not> n_in mod 16 = 0 then Inl AssertionFailure
      else
        (let n = n_in div 16;
             (pos, a8lo, a8hi) = histogram_8_loop pp data n 0 (0, set1_8 0, set1_8 0);
             a16lo = accu8to16 a8lo;
             a16hi = accu8to16 a8hi
         in Inr (hadd_epi16 a16lo a16hi)))"


subsection \<open>Histogram, 16 bins\<close>

definition shifts2 :: simd32uint8 where
  "shifts2 = [1, 2, 4, 8, 16, 32, 64, 128, 1, 2, 4, 8, 16, 32, 64, 128,
              1, 2, 4, 8, 16, 32, 64, 128, 1, 2, 4, 8, 16, 32, 64, 128]"

definition shiftr_16 :: "simd32uint8 \<Rightarrow> nat \<Rightarrow> simd32uint8" where
  "shiftr_16 x k = to_bytes (shr16 (from_bytes x) k)"

text \<open>
  \<^verbatim>\<open>combine_2x2\<close>: \<^verbatim>\<open>_mm256_permute2f128_si256(a, b, 0x21)\<close> is the high half of \<open>a\<close>
  followed by the low half of \<open>b\<close>, \<^verbatim>\<open>_mm256_blend_epi32(a, b, 0xF0)\<close> the low half of \<open>a\<close>
  followed by the high half of \<open>b\<close>.
\<close>

definition combine_2x2 :: "simd32uint8 \<Rightarrow> simd32uint8 \<Rightarrow> simd32uint8" where
  "combine_2x2 a b =
     (let a1b0 = drop 16 a @ take 16 b;
          a0b1 = take 16 a @ drop 16 b
      in add8 a1b0 a0b1)"

definition accu2_16_step ::
  "preproc \<Rightarrow> u16 list \<Rightarrow> nat \<Rightarrow> nat \<times> simd32uint8 \<times> simd32uint8
     \<Rightarrow> nat \<times> simd32uint8 \<times> simd32uint8" where
  "accu2_16_step pp data j = (\<lambda>(pos, a2_0, a2_1).
     let mask1 = set1_8 0x55;
         v = pp_apply pp (load data pos);
         idx = or16 v (shl16 v 8);
         a1 = lookup_2_lanes shifts2 (to_bytes idx);
         a1 = (if do_clip pp
               then and8 a1 (to_bytes (lanes_eq (shr16 v 4) (set1 0)))
               else a1);
         lt8 = xor16 (lanes_eq (shr16 v 3) (set1 0)) (set1 0xff00);
         a1 = and8 a1 (to_bytes lt8)
     in (pos + 16, add8 a2_0 (and8 a1 mask1), add8 a2_1 (and8 (shiftr_16 a1 1) mask1)))"

type_synonym accu4x4 = "simd32uint8 \<times> simd32uint8 \<times> simd32uint8 \<times> simd32uint8"

definition compute_accu2_16 ::
  "nat \<Rightarrow> preproc \<Rightarrow> u16 list \<Rightarrow> nat \<times> accu4x4 \<Rightarrow> nat \<times> accu4x4" where
  "compute_accu2_16 N pp data = (\<lambda>(pos, a4_0, a4_1, a4_2, a4_3).
     let (pos', a2_0, a2_1) = fold (accu2_16_step pp data) [0..<N] (pos, set1_8 0, set1_8 0);
         mask2 = set1_8 0x33
     in (pos', add8 a4_0 (and8 a2_0 mask2), add8 a4_1 (and8 a2_1 mask2),
         add8 a4_2 (and8 (shiftr_16 a2_0 2) mask2), add8 a4_3 (and8 (shiftr_16 a2_1 2) mask2)))"

definition accu4to8_2 :: "simd32uint8 \<Rightarrow> simd32uint8 \<Rightarrow> simd32uint8" where
  "accu4to8_2 a4_0 a4_1 =
     (let mask4 = set1_8 0x0f;
          a8_0 = combine_2x2 (and8 a4_0 mask4) (and8 (shiftr_16 a4_0 4) mask4);
          a8_1 = combine_2x2 (and8 a4_1 mask4) (and8 (shiftr_16 a4_1 4) mask4)
      in to_bytes (hadd_epi16 (from_bytes a8_0) (from_bytes a8_1)))"

function accu2_16_triples ::
  "preproc \<Rightarrow> u16 list \<Rightarrow> nat \<Rightarrow> nat \<Rightarrow> nat \<times> accu4x4 \<Rightarrow> nat \<times> nat \<times> accu4x4" where
  "accu2_16_triples pp data i i1 st =
     (if i + 2 < i1 then accu2_16_triples pp data (i + 3) i1 (compute_accu2_16 3 pp data st)
      else (i, st))"
  by pat_completeness auto
termination
  by (relation "measure (\<lambda>(pp, data, i, i1, st). i1 - i)") auto

function histogram_16_loop ::
  "preproc \<Rightarrow> u16 list \<Rightarrow> nat \<Rightarrow> nat \<Rightarrow> nat \<times> simd32uint8 \<times> simd32uint8
     \<Rightarrow> nat \<times> simd32uint8 \<times> simd32uint8" where
  "histogram_16_loop pp data n i0 (pos, a8lo, a8hi) =
     (if i0 < n then
        (let i1 = min (i0 + 7) n;
             (i, st) = accu2_16_triples pp data i0 i1
                         (pos, set1_8 0, set1_8 0, set1_8 0, set1_8 0);
             (pos', a4_0, a4_1, a4_2, a4_3) =
                (if i1 - i = 2 then compute_accu2_16 2 pp data st
                 else if i1 - i = 1 then compute_accu2_16 1 pp data st
                 else st)
         in histogram_16_loop pp data n (i0 + 7)
              (pos', add8 a8lo (accu4to8_2 a4_0 a4_1), add8 a8hi (accu4to8_2 a4_2 a4_3)))
      else (pos, a8lo, a8hi))"
  by pat_completeness auto
termination
  by (relation "measure (\<lambda>(pp, data, n, i0, st). n - i0)") auto

text \<open>
  \<^verbatim>\<open>_mm256_permutevar8x32_epi32\<close> with the indices \<open>0, 2, 4, 6, 1, 3, 5, 7\<close>: the result's
  32-bit word \<open>i\<close> is the argument's word \<open>perm ! i\<close>; a word is two lanes.
\<close>

definition permutevar8x32 :: "simd16uint16 \<Rightarrow> nat list \<Rightarrow> simd16uint16" where
  "permutevar8x32 a perm = concat (map (\<lambda>w. [a ! (2 * w), a ! (2 * w + 1)]) perm)"

definition histogram_16 :: "u16 list \<Rightarrow> preproc \<Rightarrow> nat \<Rightarrow> error + simd16uint16" where
  "histogram_16 data pp n_in =
     (if \<not> n_in mod 16 = 0 then Inl AssertionFailure
      else
        (let n = n_in div 16;
             (pos, a8lo, a8hi) = histogram_16_loop pp data n 0 (0, set1_8 0, set1_8 0);
             a16lo = accu8to16 a8lo;
             a16hi = accu8to16 a8hi;
             a16 = hadd_epi16 a16lo a16hi
         in Inr (permutevar8x32 a16 [0, 2, 4, 6, 1, 3, 5, 7])))"

subsection \<open>Histogram drivers\<close>

text \<open>
  The bucket array \<^verbatim>\<open>hist\<close> is a list of \<^verbatim>\<open>int\<close> counts, which the routines overwrite.
  The scalar tail of the unbounded routines stores at \<^verbatim>\<open>hist[data[i]]\<close> unchecked; a store
  outside the bucket array is undefined behaviour, where the model stops with
  \<open>OutOfBounds\<close>.
\<close>

definition hist_incr :: "nat \<Rightarrow> int list \<Rightarrow> error + int list" where
  "hist_incr v hist = (if v < length hist then Inr (hist[v := hist ! v + 1]) else Inl OutOfBounds)"

fun unbounded_tail :: "u16 list \<Rightarrow> nat list \<Rightarrow> int list \<Rightarrow> error + int list" where
  "unbounded_tail data [] hist = Inr hist"
| "unbounded_tail data (i # is) hist =
     (case hist_incr (unat (data ! i)) hist of
        Inl e \<Rightarrow> Inl e
      | Inr hist' \<Rightarrow> unbounded_tail data is hist')"

definition simd_histogram_8_unbounded :: "u16 list \<Rightarrow> nat \<Rightarrow> error + int list" where
  "simd_histogram_8_unbounded data n =
     (case histogram_8 data PreprocNOP (16 * (n div 16)) of
        Inl e \<Rightarrow> Inl e
      | Inr a16_tab \<Rightarrow>
          unbounded_tail data [16 * (n div 16)..<n]
            (map (\<lambda>i. uint (a16_tab ! i) + uint (a16_tab ! (i + 8))) [0..<8]))"

definition simd_histogram_16_unbounded :: "u16 list \<Rightarrow> nat \<Rightarrow> error + int list" where
  "simd_histogram_16_unbounded data n =
     (case histogram_16 data PreprocNOP (16 * (n div 16)) of
        Inl e \<Rightarrow> Inl e
      | Inr a16_tab \<Rightarrow>
          unbounded_tail data [16 * (n div 16)..<n]
            (map (\<lambda>i. uint (a16_tab ! i)) [0..<16]))"

text \<open>
  The scalar tail of the shifted routines: \<open>v = data[i] - min\<close>, shifted right as a signed
  16-bit value, counted when below the number of bins.
\<close>

definition shifted_tail_step :: "u16 list \<Rightarrow> u16 \<Rightarrow> nat \<Rightarrow> nat \<Rightarrow> nat \<Rightarrow> int list \<Rightarrow> int list" where
  "shifted_tail_step data m shift nbin i hist =
     (let v = signed_drop_bit shift (data ! i - m)
      in if v < of_nat nbin then hist[unat v := hist ! unat v + 1] else hist)"

definition simd_histogram_8 :: "u16 list \<Rightarrow> nat \<Rightarrow> u16 \<Rightarrow> int \<Rightarrow> error + int list" where
  "simd_histogram_8 data n m shift =
     (if shift < 0 then simd_histogram_8_unbounded data n
      else if shift \<le> 8 then
        (case histogram_8 data (PreprocMinShift (nat shift) m) (16 * (n div 16)) of
           Inl e \<Rightarrow> Inl e
         | Inr a16_tab \<Rightarrow>
             Inr (fold (shifted_tail_step data m (nat shift) 8) [16 * (n div 16)..<n]
                    (map (\<lambda>i. uint (a16_tab ! i) + uint (a16_tab ! (i + 8))) [0..<8])))
      else Inl FaissException)"

definition simd_histogram_16 :: "u16 list \<Rightarrow> nat \<Rightarrow> u16 \<Rightarrow> int \<Rightarrow> error + int list" where
  "simd_histogram_16 data n m shift =
     (if shift < 0 then simd_histogram_16_unbounded data n
      else if shift \<le> 8 then
        (case histogram_16 data (PreprocMinShift (nat shift) m) (16 * (n div 16)) of
           Inl e \<Rightarrow> Inl e
         | Inr a16_tab \<Rightarrow>
             Inr (fold (shifted_tail_step data m (nat shift) 16) [16 * (n div 16)..<n]
                    (map (\<lambda>i. uint (a16_tab ! i)) [0..<16])))
      else Inl FaissException)"

declare accu2_triples.simps [simp del] histogram_8_loop.simps [simp del]
  accu2_16_triples.simps [simp del] histogram_16_loop.simps [simp del]

section \<open>Specification functions\<close>

text \<open>
  What the claims are stated with: the number of scores strictly better than a
  threshold, the number equal to it, and the left-to-right selection that keeps every
  strictly better pair and the first \<open>k\<close> pairs equal to the threshold.
\<close>

definition n_better :: "policy \<Rightarrow> u16 \<Rightarrow> u16 list \<Rightarrow> nat" where
  "n_better C t vals = length (filter (cmp C t) vals)"

definition n_equal :: "u16 \<Rightarrow> u16 list \<Rightarrow> nat" where
  "n_equal t vals = length (filter (\<lambda>v. v = t) vals)"

fun kept :: "policy \<Rightarrow> u16 \<Rightarrow> nat \<Rightarrow> (u16 \<times> 'i) list \<Rightarrow> (u16 \<times> 'i) list" where
  "kept C t k [] = []"
| "kept C t k (x # xs) =
     (if cmp C t (fst x) then x # kept C t k xs
      else if k > 0 \<and> fst x = t then x # kept C t (k - 1) xs
      else kept C t k xs)"

fun budget :: "policy \<Rightarrow> u16 \<Rightarrow> nat \<Rightarrow> (u16 \<times> 'i) list \<Rightarrow> nat" where
  "budget C t k [] = k"
| "budget C t k (x # xs) =
     (if cmp C t (fst x) then budget C t k xs
      else if k > 0 \<and> fst x = t then budget C t (k - 1) xs
      else budget C t k xs)"

text \<open>
  The state of a compaction that has consumed the first \<open>i\<close> positions of the input
  arrays \<open>vals0\<close>, \<open>ids0\<close>: the kept pairs in front, the input untouched behind them.
\<close>

definition cnorm ::
  "policy \<Rightarrow> u16 \<Rightarrow> nat \<Rightarrow> u16 list \<Rightarrow> 'i list \<Rightarrow> nat \<Rightarrow> 'i cstate" where
  "cnorm C t k vals0 ids0 i =
     (let K = kept C t k (take i (zip vals0 ids0))
      in (map fst K @ drop (length K) vals0, map snd K @ drop (length K) ids0,
          length K, budget C t k (take i (zip vals0 ids0))))"

text \<open>
  One lane of a vector block, told by two flags whether the score at position \<open>i\<close> is
  equal to the threshold and whether it is strictly better.
\<close>

definition lane_step :: "bool \<Rightarrow> bool \<Rightarrow> nat \<Rightarrow> 'i cstate \<Rightarrow> 'i cstate" where
  "lane_step is_eq is_lt i = (\<lambda>(vals, ids, wp, n_eq).
     if is_lt then keep i 0 (vals, ids, wp, n_eq)
     else if is_eq \<and> n_eq > 0 then keep i 1 (vals, ids, wp, n_eq)
     else (vals, ids, wp, n_eq))"


text \<open>
  The number of scores whose unsigned value is below \<open>s\<close>, and the invariant that the
  search range \<open>[s0, s1)\<close> of the bounded partition keeps.
\<close>

definition below :: "nat \<Rightarrow> u16 list \<Rightarrow> nat" where
  "below s vals = length (filter (\<lambda>v. unat v < s) vals)"

definition bounds_inv :: "policy \<Rightarrow> u16 list \<Rightarrow> nat \<Rightarrow> nat \<Rightarrow> nat \<Rightarrow> nat \<Rightarrow> bool" where
  "bounds_inv C vals q_min q_max s0 s1 \<longleftrightarrow>
     s0 < s1 \<and> s1 \<le> 65536 \<and>
     (if is_max C then below s0 vals < q_min \<and> q_max < below s1 vals
      else length vals - below s1 vals < q_min \<and> q_max < length vals - below s0 vals)"

text \<open>
  The outcome of a partition with threshold \<open>T\<close> and count \<open>q\<close>: the first \<open>q\<close> positions
  hold, in input order, every pair strictly better than \<open>T\<close> and the first
  \<open>q - n_better C T vals\<close> pairs equal to \<open>T\<close>; the positions from \<open>q\<close> on hold what
  the input held there.
\<close>

definition selected ::
  "policy \<Rightarrow> u16 \<Rightarrow> nat \<Rightarrow> u16 list \<Rightarrow> 'i list \<Rightarrow> u16 list \<Rightarrow> 'i list \<Rightarrow> bool" where
  "selected C T q vals ids vals' ids' \<longleftrightarrow>
     (let k = q - n_better C T vals; K = kept C T k (zip vals ids)
      in n_better C T vals \<le> q \<and> k \<le> n_equal T vals \<and>
         vals' = map fst K @ drop q vals \<and> ids' = map snd K @ drop q ids)"

section \<open>Properties of the scalar routines\<close>

lemma cmp_irrefl [simp]: "\<not> cmp C t t"
  by (cases C) simp_all

lemma fold_nth_upt: "fold (\<lambda>i. f (xs ! i)) [0..<length xs] s = fold f xs s"
proof -
  have "fold (\<lambda>i. f (xs ! i)) [0..<length xs] s = fold f (map (nth xs) [0..<length xs]) s"
    by (simp add: fold_map comp_def)
  then show ?thesis
    by (simp add: map_nth)
qed

lemma fold_count_step:
  "fold (count_step C t) xs (a, b) =
     (a + length (filter (cmp C t) xs), b + length (filter (\<lambda>v. v = t) xs))"
  by (induction xs arbitrary: a b) (auto simp: count_step_def)

lemma count_lt_and_eq_eq:
  "length vals = n \<Longrightarrow> count_lt_and_eq C vals n t = (n_better C t vals, n_equal t vals)"
  using fold_nth_upt [of "count_step C t" vals "(0, 0)"]
  by (simp add: count_lt_and_eq_def n_better_def n_equal_def fold_count_step)

lemma kept_append:
  "kept C t k (xs @ ys) = kept C t k xs @ kept C t (budget C t k xs) ys"
  by (induction xs arbitrary: k) auto

lemma budget_append:
  "budget C t k (xs @ ys) = budget C t (budget C t k xs) ys"
  by (induction xs arbitrary: k) auto

lemma length_kept_le: "length (kept C t k xs) \<le> length xs"
  by (induction xs arbitrary: k) (auto simp: le_SucI)

text \<open>
  One more position: whatever tells the step that position \<open>i\<close> is strictly better
  (\<open>is_lt\<close>) or equal with budget left (\<open>is_eq\<close>), the state moves from \<open>cnorm \<dots> i\<close>
  to \<open>cnorm \<dots> (Suc i)\<close>.
\<close>

lemma cnorm_Suc:
  assumes "length vals = n" "length ids = n" "i < n"
  shows "cnorm C t k vals ids (Suc i) =
    (case cnorm C t k vals ids i of (vs, is, wp, n_eq) \<Rightarrow>
       if cmp C t (vals ! i) then keep i 0 (vs, is, wp, n_eq)
       else if n_eq > 0 \<and> vals ! i = t then keep i 1 (vs, is, wp, n_eq)
       else (vs, is, wp, n_eq))"
proof -
  let ?xs = "take i (zip vals ids)"
  let ?K = "kept C t k ?xs"
  have tk: "take (Suc i) (zip vals ids) = ?xs @ [(vals ! i, ids ! i)]"
    using assms by (simp add: take_Suc_conv_app_nth)
  have lK: "length ?K \<le> i"
    using length_kept_le [of C t k ?xs] assms by simp
  have nv: "(map fst ?K @ drop (length ?K) vals) ! i = vals ! i"
    using lK assms by (simp add: nth_append)
  have ni: "(map snd ?K @ drop (length ?K) ids) ! i = ids ! i"
    using lK assms by (simp add: nth_append)
  have upd_v: "(map fst ?K @ drop (length ?K) vals)[length ?K := x] =
        map fst ?K @ [x] @ drop (Suc (length ?K)) vals" for x
    using lK assms
    by (simp add: list_update_append upd_conv_take_nth_drop Cons_nth_drop_Suc [symmetric])
  have upd_i: "(map snd ?K @ drop (length ?K) ids)[length ?K := x] =
        map snd ?K @ [x] @ drop (Suc (length ?K)) ids" for x
    using lK assms
    by (simp add: list_update_append upd_conv_take_nth_drop Cons_nth_drop_Suc [symmetric])
  show ?thesis
    using nv ni upd_v upd_i
    by (simp add: cnorm_def keep_def tk kept_append budget_append Let_def)
qed

lemma cnorm_0: "cnorm C t k vals ids 0 = (vals, ids, 0, k)"
  by (simp add: cnorm_def)

lemma cnorm_nth:
  assumes "length vals = n" "i < n"
  shows "fst (cnorm C t k vals ids i) ! i = vals ! i"
proof -
  have "length (kept C t k (take i (zip vals ids))) \<le> i"
    using length_kept_le [of C t k "take i (zip vals ids)"] by simp
  then show ?thesis
    using assms by (simp add: cnorm_def Let_def nth_append)
qed

lemma compress_step_cnorm:
  assumes "length vals = n" "length ids = n" "i < n"
  shows "compress_step C t i (cnorm C t k vals ids i) = cnorm C t k vals ids (Suc i)"
proof -
  obtain vs "is" wp n_eq where c: "cnorm C t k vals ids i = (vs, is, wp, n_eq)"
    by (cases "cnorm C t k vals ids i") auto
  have "vs ! i = vals ! i"
    using cnorm_nth [OF assms(1,3), of C t k ids] c by simp
  then show ?thesis
    by (simp add: cnorm_Suc [OF assms] c compress_step_def)
qed

lemma compress_fold:
  assumes "length vals = n" "length ids = n" "i \<le> n"
  shows "fold (compress_step C t) [0..<i] (vals, ids, 0, k) = cnorm C t k vals ids i"
  using assms(3)
proof (induction i)
  case 0
  then show ?case by (simp add: cnorm_0)
next
  case (Suc i)
  then show ?case
    using compress_step_cnorm [OF assms(1,2), of i C t k] by simp
qed

lemma compress_array_eq:
  assumes "length vals = n" "length ids = n"
  shows "compress_array C vals ids n t k =
     (let K = kept C t k (zip vals ids)
      in if budget C t k (zip vals ids) = 0
         then Inr (map fst K @ drop (length K) vals, map snd K @ drop (length K) ids, length K)
         else Inl AssertionFailure)"
  using compress_fold [OF assms, of n C t k] assms
  by (simp add: compress_array_def cnorm_def Let_def)

text \<open>
  The frame of one compaction pass, whatever its assertion says afterwards: the pass
  writes below its final write position \<open>wp\<close> only.
\<close>

lemma compress_pass_frame:
  assumes "length vals = n" "length ids = n"
    and "fold (compress_step C t) [0..<n] (vals, ids, 0, k) = (vals', ids', wp, k')"
  shows "length vals' = n \<and> length ids' = n \<and>
     drop wp vals' = drop wp vals \<and> drop wp ids' = drop wp ids"
proof -
  have "length (kept C t k (zip vals ids)) \<le> n"
    using length_kept_le [of C t k "zip vals ids"] assms(1,2) by simp
  then show ?thesis
    using assms(3) assms(1,2) unfolding compress_fold [OF assms(1,2) order_refl]
    by (auto simp: cnorm_def Let_def)
qed

lemma sample_loop_eq:
  "length val3 < 3 \<Longrightarrow>
   sample_loop C vals n thresh_inf thresh_sup is val3 =
     take 3 (val3 @ filter (\<lambda>v. cmp C v thresh_inf \<and> cmp C thresh_sup v)
                      (map (\<lambda>i. vals ! ((i * big_prime) mod n)) is))"
proof (induction "is" arbitrary: val3)
  case Nil
  then show ?case by simp
next
  case (Cons i "is")
  have "length val3 \<noteq> 2 \<Longrightarrow> 3 - length val3 = Suc (2 - length val3)"
    using Cons.prems by arith
  with Cons show ?case
    by (auto simp: Let_def)
qed

text \<open>
  The sampling visits the positions \<open>(i * big_prime) mod n\<close> for \<open>i < n\<close>.  When \<open>n\<close> and
  the stride have no common factor these are all the positions, and then the sample
  is a score of the array strictly inside the search interval whenever there is one.
\<close>

lemma median3_in: "median3 a b c = a \<or> median3 a b c = b \<or> median3 a b c = c"
  by (auto simp: median3_def Let_def split: if_splits)

lemma stride_surj:
  assumes "coprime (n :: nat) p" "j < n"
  shows "\<exists>i<n. (i * p) mod n = j"
proof -
  let ?f = "\<lambda>i. (i * p) mod n"
  have n: "0 < n" using assms(2) by linarith
  have eq: "a = b" if "a \<le> b" "b < n" "?f a = ?f b" for a b
  proof -
    have le: "a * p \<le> b * p" using that(1) by simp
    have "b * p mod n = a * p mod n" using that(3) by simp
    then have "n dvd b * p - a * p"
      using mod_eq_dvd_iff_nat [OF le, of n] by simp
    then have "n dvd (b - a) * p"
      by (simp add: diff_mult_distrib)
    then have "n dvd b - a"
      using assms(1) by (simp add: coprime_dvd_mult_left_iff)
    moreover have "b - a < n" using that(2) by simp
    ultimately show ?thesis
      using that(1) by (auto dest: dvd_imp_le)
  qed
  have inj: "inj_on ?f {..<n}"
  proof (rule inj_onI)
    fix a b assume "a \<in> {..<n}" "b \<in> {..<n}" "?f a = ?f b"
    then show "a = b"
      using eq [of a b] eq [of b a] by (cases "a \<le> b") auto
  qed
  have "?f ` {..<n} \<subseteq> {..<n}" using n by auto
  moreover have "card (?f ` {..<n}) = card {..<n}"
    using inj by (rule card_image)
  ultimately have "?f ` {..<n} = {..<n}"
    by (intro card_subset_eq) auto
  then have "j \<in> ?f ` {..<n}" using assms(2) by simp
  then show ?thesis by auto
qed

lemma sample_inside:
  assumes "length vals = n" "coprime n big_prime"
    and "v \<in> set vals" "cmp C v tinf" "cmp C tsup v"
  shows "sample_threshold_median3 C vals n tinf tsup \<in> set vals \<and>
     cmp C (sample_threshold_median3 C vals n tinf tsup) tinf \<and>
     cmp C tsup (sample_threshold_median3 C vals n tinf tsup)"
proof -
  define P where "P = (\<lambda>v. cmp C v tinf \<and> cmp C tsup v)"
  define F where "F = filter P (map (\<lambda>i. vals ! ((i * big_prime) mod n)) [0..<n])"
  have n: "0 < n" using assms(1,3) by (cases vals) auto
  obtain j where j: "j < n" "vals ! j = v"
    using assms(1,3) by (auto simp: in_set_conv_nth)
  obtain i where i: "i < n" "(i * big_prime) mod n = j"
    using stride_surj [OF assms(2) j(1)] by blast
  have "v \<in> set F"
    using i j assms(4,5) by (auto simp: F_def P_def intro!: image_eqI [where x = i])
  then have ne: "F \<noteq> []" by auto
  have sub: "x \<in> set vals \<and> P x" if "x \<in> set F" for x
    using that n assms(1) by (auto simp: F_def)
  have s: "sample_loop C vals n tinf tsup [0..<n] [] = take 3 F"
    by (simp add: sample_loop_eq F_def P_def)
  have "sample_threshold_median3 C vals n tinf tsup \<in> set F"
  proof (cases "length F \<ge> 3")
    case True
    then have "F ! 0 \<in> set F" "F ! 1 \<in> set F" "F ! 2 \<in> set F"
      using ne by simp_all
    then show ?thesis
      using True median3_in [of "F ! 0" "F ! 1" "F ! 2"]
      by (auto simp: sample_threshold_median3_def s Let_def)
  next
    case False
    moreover have "F ! 0 \<in> set F" using ne by simp
    ultimately show ?thesis
      using ne by (auto simp: sample_threshold_median3_def s Let_def)
  qed
  from sub [OF this] show ?thesis by (simp add: P_def)
qed

lemma upt_0_numeral: "[0..<numeral k] = 0 # map Suc [0..<pred_numeral k]"
  by (simp add: numeral_eq_Suc upt_conv_Cons map_Suc_upt del: upt_Suc)

section \<open>Properties of the vector routines\<close>

subsection \<open>Counting\<close>

lemma count_nth_upt:
  "length (filter (\<lambda>i. Q (bs ! i)) [0..<length bs]) = length (filter Q bs)"
proof -
  have "filter Q bs = filter Q (map (nth bs) [0..<length bs])"
    by (simp add: map_nth)
  also have "\<dots> = map (nth bs) (filter (Q \<circ> nth bs) [0..<length bs])"
    by (simp only: filter_map)
  finally show ?thesis by (simp add: comp_def)
qed

lemma bit_movemask:
  "bit (movemask_epi8 bs) i \<longleftrightarrow> i < 32 \<and> i < length bs \<and> bit (bs ! i) 7"
  by (auto simp: movemask_epi8_def bit_horner_sum_bit_word_iff)

lemma popcount_movemask:
  assumes "length bs = 32"
  shows "popcount (movemask_epi8 bs) = length (filter (\<lambda>x. bit x 7) bs)"
proof -
  have "filter (bit (movemask_epi8 bs)) [0..<32] = filter (\<lambda>i. bit (bs ! i) 7) [0..<length bs]"
    using assms by (auto simp: bit_movemask intro!: filter_cong)
  then show ?thesis
    using count_nth_upt [of "\<lambda>x. bit x 7" bs] by (simp add: popcount_def)
qed

lemma mask_00ff00ff: "(0x00ff00ff :: u32) = mask 8 OR push_bit 16 (mask 8)"
  by (simp add: mask_eq_exp_minus_1 push_bit_eq_mult)

lemma bit_00ff00ff: "bit (0x00ff00ff :: u32) i \<longleftrightarrow> i < 8 \<or> (16 \<le> i \<and> i < 24)"
  unfolding mask_00ff00ff
  by (auto simp: bit_or_iff bit_mask_iff bit_push_bit_iff)


lemma count_nth_range:
  assumes "b \<le> length bs"
  shows "length (filter (\<lambda>i. Q (bs ! i)) [a..<b]) = length (filter Q (take (b - a) (drop a bs)))"
proof -
  have "take (b - a) (drop a bs) = map (nth bs) [a..<b]"
    using assms by (auto intro!: nth_equalityI)
  then have "filter Q (take (b - a) (drop a bs)) = map (nth bs) (filter (Q \<circ> nth bs) [a..<b])"
    by (simp only: filter_map)
  then show ?thesis by (simp add: comp_def)
qed

lemma popcount_movemask_and:
  assumes "length bs = 32"
  shows "popcount (movemask_epi8 bs AND 0x00ff00ff) =
     length (filter (\<lambda>x. bit x 7) (take 8 bs)) + length (filter (\<lambda>x. bit x 7) (take 8 (drop 16 bs)))"
proof -
  let ?Q = "\<lambda>i. bit (bs ! i) 7"
  have split: "[0..<32] = [0..<8] @ [8..<16] @ [16..<24] @ [24..<32::nat]"
    using upt_add_eq_append [of 0 8 24] upt_add_eq_append [of 8 16 16]
      upt_add_eq_append [of 16 24 8]
    by (simp del: upt_rec_numeral)
  have e: "bit (movemask_epi8 bs AND 0x00ff00ff) i \<longleftrightarrow>
        (i < 8 \<or> 16 \<le> i \<and> i < 24) \<and> i < 32 \<and> ?Q i" for i
    using assms by (simp only: bit_and_iff bit_movemask bit_00ff00ff) auto
  have f1: "filter (bit (movemask_epi8 bs AND 0x00ff00ff)) [0..<8] = filter ?Q [0..<8]"
    by (rule filter_cong) (auto simp only: e set_upt atLeastLessThan_iff)
  have f2: "filter (bit (movemask_epi8 bs AND 0x00ff00ff)) [8..<16] = []"
    by (auto simp only: filter_empty_conv e set_upt atLeastLessThan_iff)
  have f3: "filter (bit (movemask_epi8 bs AND 0x00ff00ff)) [16..<24] = filter ?Q [16..<24]"
    by (rule filter_cong) (auto simp only: e set_upt atLeastLessThan_iff)
  have f4: "filter (bit (movemask_epi8 bs AND 0x00ff00ff)) [24..<32] = []"
    by (auto simp only: filter_empty_conv e set_upt atLeastLessThan_iff)
  have f: "filter (bit (movemask_epi8 bs AND 0x00ff00ff)) [0..<32] =
        filter ?Q [0..<8] @ filter ?Q [16..<24]"
    unfolding split filter_append f1 f2 f3 f4 by simp
  show ?thesis
    using count_nth_range [of 8 bs "\<lambda>x. bit x 7" 0] count_nth_range [of 24 bs "\<lambda>x. bit x 7" 16] assms
    by (simp add: popcount_def f)
qed

lemma length_load: "i + 16 \<le> length vals \<Longrightarrow> length (load vals i) = 16"
  by (simp add: load_def)

lemma sat8_mask: "bit (sat8 (if P then 0xffff else 0)) 7 \<longleftrightarrow> P"
  by (simp add: sat8_def)

lemma lanes_eq_set1:
  "length v = 16 \<Longrightarrow> lanes_eq v (set1 t) = map (\<lambda>x. if x = t then 0xffff else 0) v"
  by (simp add: lanes_eq_def set1_def zip_replicate2)

lemma ge_iff_not_cmp: "x = (if is_max C then max x t else min x t) \<longleftrightarrow> \<not> cmp C t x"
  by (cases C) (auto simp: max_def min_def)

lemma lanes_ge:
  assumes "length v = 16"
  shows "lanes_eq v (max_func C v (set1 t)) = map (\<lambda>x. if \<not> cmp C t x then 0xffff else 0) v"
proof -
  have m: "max_func C v (set1 t) = map (\<lambda>x. if is_max C then max x t else min x t) v"
    using assms by (simp add: max_func_def set1_def zip_replicate2)
  show ?thesis
    unfolding m lanes_eq_def
    by (simp add: zip_map2 zip_same_conv_map ge_iff_not_cmp [symmetric])
qed

lemma simd_count_block_eq:
  assumes "16 * i + 16 \<le> length vals"
  shows "simd_count_block C (set1 t) vals i (a, b) =
     (a + length (filter (cmp C t) (load vals (16 * i))),
      b + length (filter (\<lambda>x. x = t) (load vals (16 * i))))"
proof -
  let ?v = "load vals (16 * i)"
  let ?E = "map (\<lambda>x. if x = t then 0xffff else 0 :: u16) ?v"
  let ?G = "map (\<lambda>x. if \<not> cmp C t x then 0xffff else 0 :: u16) ?v"
  let ?bs = "packs_epi16 ?E ?G"
  have lv: "length ?v = 16" using assms by (rule length_load)
  have lb: "length ?bs = 32" using lv by (simp add: packs_epi16_def)
  have t1: "take 8 ?bs = map sat8 (take 8 ?E)"
    using lv by (simp add: packs_epi16_def take_map)
  have t2: "take 8 (drop 16 ?bs) = map sat8 (drop 8 ?E)"
    using lv by (simp add: packs_epi16_def take_map drop_map)
  have c1: "length (filter (\<lambda>x. bit x 7) (map sat8 (take 8 ?E))) = length (filter (\<lambda>x. x = t) (take 8 ?v))"
    by (simp add: take_map filter_map comp_def sat8_mask)
  have c2: "length (filter (\<lambda>x. bit x 7) (map sat8 (drop 8 ?E))) = length (filter (\<lambda>x. x = t) (drop 8 ?v))"
    by (simp add: drop_map filter_map comp_def sat8_mask)
  have "length (filter (\<lambda>x. x = t) (take 8 ?v)) + length (filter (\<lambda>x. x = t) (drop 8 ?v))
      = length (filter (\<lambda>x. x = t) (take 8 ?v @ drop 8 ?v))"
    by (simp only: filter_append length_append)
  then have i_eq: "popcount (movemask_epi8 ?bs AND 0x00ff00ff) = length (filter (\<lambda>x. x = t) ?v)"
    using popcount_movemask_and [OF lb] by (simp only: t1 t2 c1 c2 append_take_drop_id)
  have all: "filter (\<lambda>x. bit x 7) ?bs =
     map sat8 (filter (\<lambda>x. bit (sat8 x) 7) (take 8 ?E @ take 8 ?G @ drop 8 ?E @ drop 8 ?G))"
    by (simp add: packs_epi16_def filter_map comp_def)
  have cE: "length (filter (\<lambda>x. bit (sat8 x) 7) (take 8 ?E)) + length (filter (\<lambda>x. bit (sat8 x) 7) (drop 8 ?E))
       = length (filter (\<lambda>x. bit (sat8 x) 7) ?E)"
    by (metis append_take_drop_id filter_append length_append)
  have cG: "length (filter (\<lambda>x. bit (sat8 x) 7) (take 8 ?G)) + length (filter (\<lambda>x. bit (sat8 x) 7) (drop 8 ?G))
       = length (filter (\<lambda>x. bit (sat8 x) 7) ?G)"
    by (metis append_take_drop_id filter_append length_append)
  have E: "length (filter (\<lambda>x. bit (sat8 x) 7) ?E) = length (filter (\<lambda>x. x = t) ?v)"
    by (simp add: filter_map comp_def sat8_mask)
  have G: "length (filter (\<lambda>x. bit (sat8 x) 7) ?G) = length (filter (\<lambda>x. \<not> cmp C t x) ?v)"
    by (simp add: filter_map comp_def sat8_mask)
  have pop: "popcount (movemask_epi8 ?bs) =
       length (filter (\<lambda>x. x = t) ?v) + length (filter (\<lambda>x. \<not> cmp C t x) ?v)"
    using cE cG unfolding popcount_movemask [OF lb] all E G
    by (simp only: length_map filter_append length_append)
  have "length (filter (cmp C t) ?v) + length (filter (\<lambda>x. \<not> cmp C t x) ?v) = 16"
    using sum_length_filter_compl [of "cmp C t" ?v] lv by simp
  then have lt: "16 - length (filter (\<lambda>x. \<not> cmp C t x) ?v) = length (filter (cmp C t) ?v)"
    by linarith
  show ?thesis
    unfolding simd_count_block_def
    by (simp add: Let_def lanes_eq_set1 [OF lv] lanes_ge [OF lv] i_eq pop lt)
qed

lemma simd_count_blocks:
  assumes "16 * m \<le> length vals"
  shows "fold (simd_count_block C (set1 t) vals) [0..<m] (0, 0) =
     (n_better C t (take (16 * m) vals), n_equal t (take (16 * m) vals))"
  using assms
proof (induction m)
  case 0
  then show ?case by (simp add: n_better_def n_equal_def)
next
  case (Suc m)
  have tk: "take (16 + 16 * m) vals = take (16 * m) vals @ load vals (16 * m)"
    using take_add [of "16 * m" 16 vals] by (simp add: load_def add.commute)
  show ?case
    using Suc simd_count_block_eq [of m vals C t]
    by (simp add: tk n_better_def n_equal_def)
qed

lemma fold_nth_range:
  assumes "length xs = n"
  shows "fold (\<lambda>i. f (xs ! i)) [a..<n] s = fold f (drop a xs) s"
proof -
  have "drop a xs = map (nth xs) [a..<n]"
    using assms by (auto intro!: nth_equalityI)
  then show ?thesis
    by (simp add: fold_map comp_def)
qed

lemma simd_count_lt_and_eq_eq:
  assumes "length vals = n"
  shows "simd_count_lt_and_eq C vals n t = (n_better C t vals, n_equal t vals)"
proof -
  have le: "16 * (n div 16) \<le> length vals" using assms by simp
  have "n_better C t (take (16 * (n div 16)) vals) + n_better C t (drop (16 * (n div 16)) vals)
      = n_better C t vals"
    unfolding n_better_def by (metis append_take_drop_id filter_append length_append)
  moreover have "n_equal t (take (16 * (n div 16)) vals) + n_equal t (drop (16 * (n div 16)) vals)
      = n_equal t vals"
    unfolding n_equal_def by (metis append_take_drop_id filter_append length_append)
  ultimately show ?thesis
    using simd_count_blocks [OF le, of C t] fold_nth_range [OF assms, of "count_step C t"]
    by (simp add: simd_count_lt_and_eq_def Let_def fold_count_step mult.commute
         n_better_def n_equal_def)
qed

subsection \<open>Compaction\<close>

lemma ctz_least: "i < ctz w \<Longrightarrow> \<not> bit w i"
proof -
  assume a: "i < ctz w"
  let ?tw = "takeWhile (\<lambda>i. \<not> bit w i) [0..<32]"
  have l: "i < length ?tw" using a by (simp add: ctz_def)
  then have "?tw ! i \<in> set ?tw" by (rule nth_mem)
  then have p: "\<not> bit w (?tw ! i)" by (auto dest: set_takeWhileD)
  have "length ?tw \<le> 32" using length_takeWhile_le [of "\<lambda>i. \<not> bit w i" "[0..<32]"] by simp
  then have "?tw ! i = i"
    using l by (simp add: takeWhile_nth)
  with p show ?thesis by simp
qed

lemma lane_step_FF [simp]: "lane_step False False i st = st"
  by (cases st) (simp add: lane_step_def)

lemma fold_lanes_split:
  assumes "j0 < 16"
  shows "fold f [0..<16] st = fold f [Suc j0..<16] (f j0 (fold f [0..<j0] st))"
proof -
  have "[0..<16] = [0..<j0] @ j0 # [Suc j0..<16]"
    using assms upt_add_eq_append [of 0 j0 "16 - j0"] by (simp add: upt_conv_Cons del: upt_rec_numeral)
  then show ?thesis by (simp del: upt_rec_numeral)
qed

lemma bit_clear_pair:
  "bit (w AND NOT (push_bit j (3::u32))) i \<longleftrightarrow> bit w i \<and> \<not> (i = j \<or> i = Suc j)"
proof -
  have b3: "bit (3::u32) k \<longleftrightarrow> k = 0 \<or> k = 1" for k
  proof (cases k)
    case 0 then show ?thesis by simp
  next
    case (Suc k')
    then show ?thesis by (cases k') (simp_all add: bit_Suc)
  qed
  have "bit (push_bit j (3::u32)) i \<longleftrightarrow> i < 32 \<and> (i = j \<or> i = Suc j)"
    using b3 [of "i - j"] by (auto simp: bit_push_bit_iff)
  then show ?thesis
    by (auto simp: bit_and_iff bit_not_iff dest: bit_imp_le_length)
qed


declare collect_eq_lt.simps [simp del] collect_lt.simps [simp del]
  compress_loop1.simps [simp del] compress_loop2.simps [simp del]

lemma fold_ident [simp]: "fold (\<lambda>j a. a) xs s = s"
  by (induction xs) simp_all

lemma fold_ident_on:
  assumes "\<And>x. x \<in> set xs \<Longrightarrow> f x = (\<lambda>s. s)"
  shows "fold f xs s = s"
proof -
  have "fold f xs s = fold (\<lambda>j a. a) xs s"
    by (rule fold_cong) (simp_all add: assms)
  then show ?thesis by simp
qed

lemma collect_eq_lt_fold:
  fixes st :: "'i cstate"
  shows "collect_eq_lt bits i0 st =
     fold (\<lambda>j. lane_step (bit bits (2 * j)) (bit bits (Suc (2 * j))) (i0 + j)) [0..<16] st"
proof (induction bits i0 st rule: collect_eq_lt.induct)
  case (1 bits i0 vals ids wp n_eq)
  let ?F = "\<lambda>b j. lane_step (bit b (2 * j)) (bit b (Suc (2 * j))) (i0 + j) :: 'i cstate \<Rightarrow> 'i cstate"
  let ?st = "(vals, ids, wp, n_eq)"
  show ?case
  proof (cases "bits = 0")
    case True
    then show ?thesis
      by (simp add: collect_eq_lt.simps)
  next
    case False
    define j0 where "j0 = ctz bits div 2"
    define bits' where "bits' = bits AND NOT (push_bit (2 * j0) 3)"
    define st' where "st' = ?F bits j0 ?st"
    have c: "ctz bits < 32" "bit bits (ctz bits)"
      using ctz_bit [OF False] by simp_all
    have j0: "j0 < 16" using c(1) by (simp add: j0_def)
    have low: "?F bits l = (\<lambda>s. s)" if "l < j0" for l
    proof -
      have "2 * l < ctz bits" "Suc (2 * l) < ctz bits"
        using that by (simp_all add: j0_def)
      then show ?thesis
        by (simp add: ctz_least fun_eq_iff)
    qed
    have pre: "fold (?F bits) [0..<j0] s = s" for s :: "'i cstate"
      by (rule fold_ident_on) (simp add: low)
    have lhs: "fold (?F bits) [0..<16] ?st = fold (?F bits) [Suc j0..<16] st'"
      using fold_lanes_split [OF j0, of "?F bits" ?st] pre by (simp add: st'_def)
    have b': "bit bits' i \<longleftrightarrow> bit bits i \<and> \<not> (i = 2 * j0 \<or> i = Suc (2 * j0))" for i
      by (simp add: bits'_def bit_clear_pair)
    have low': "?F bits' l = (\<lambda>s. s)" if "l \<le> j0" for l
    proof (cases "l = j0")
      case True
      then show ?thesis by (simp add: b' fun_eq_iff)
    next
      case False
      then have "l < j0" using that by simp
      from low [OF this] have "\<not> bit bits (2 * l)" "\<not> bit bits (Suc (2 * l))"
        using \<open>l < j0\<close> ctz_least [of "2 * l" bits] ctz_least [of "Suc (2 * l)" bits]
        by (simp_all add: j0_def)
      then show ?thesis by (simp add: b' fun_eq_iff)
    qed
    have pre': "fold (?F bits') [0..<j0] s = s" for s :: "'i cstate"
      by (rule fold_ident_on) (simp add: low')
    have hi: "?F bits' l = ?F bits l" if "j0 < l" for l
      using that by (simp add: b')
    have "fold (?F bits') [Suc j0..<16] st' = fold (?F bits) [Suc j0..<16] st'"
      by (rule fold_cong) (simp_all add: hi)
    then have rhs: "fold (?F bits') [0..<16] st' = fold (?F bits) [Suc j0..<16] st'"
      using fold_lanes_split [OF j0, of "?F bits'" st'] pre' low' [of j0] by simp
    define raw where "raw =
      (if bit bits (2 * (ctz bits div 2) + 1) then keep (i0 + 2 * (ctz bits div 2) div 2) 0 ?st
       else if bit bits (2 * (ctz bits div 2)) \<and> 0 < n_eq
         then keep (i0 + 2 * (ctz bits div 2) div 2) 1 ?st
       else ?st)"
    have raw: "raw = st'"
      by (simp add: raw_def st'_def lane_step_def j0_def)
    have "collect_eq_lt (bits AND NOT (push_bit (2 * (ctz bits div 2)) 3)) i0 raw =
        fold (?F (bits AND NOT (push_bit (2 * (ctz bits div 2)) 3))) [0..<16] raw"
      unfolding raw_def by (rule 1 [OF False refl refl refl refl refl])
    then have IH: "collect_eq_lt bits' i0 st' = fold (?F bits') [0..<16] st'"
      unfolding raw bits'_def j0_def .
    have "collect_eq_lt bits i0 ?st =
        collect_eq_lt (bits AND NOT (push_bit (2 * (ctz bits div 2)) 3)) i0 raw"
      by (subst collect_eq_lt.simps) (simp only: False if_False Let_def raw_def)
    then have step: "collect_eq_lt bits i0 ?st = collect_eq_lt bits' i0 st'"
      unfolding raw bits'_def j0_def .
    show ?thesis
      using step IH rhs lhs by simp
  qed
qed

lemma collect_lt_fold:
  fixes st :: "'i cstate"
  assumes "\<And>l. l < 16 \<Longrightarrow> bit bits (Suc (2 * l)) = bit bits (2 * l)"
  shows "collect_lt bits i0 st =
     fold (\<lambda>j. lane_step False (bit bits (2 * j)) (i0 + j)) [0..<16] st"
  using assms
proof (induction bits i0 st rule: collect_lt.induct)
  case (1 bits i0 st)
  let ?F = "\<lambda>b j. lane_step False (bit b (2 * j)) (i0 + j) :: 'i cstate \<Rightarrow> 'i cstate"
  note paired = "1.prems"
  show ?case
  proof (cases "bits = 0")
    case True
    then show ?thesis
      by (simp add: collect_lt.simps)
  next
    case False
    define j0 where "j0 = ctz bits div 2"
    define bits' where "bits' = bits AND NOT (push_bit (ctz bits) 3)"
    define st' where "st' = keep (i0 + ctz bits div 2) 0 st"
    have c: "ctz bits < 32" "bit bits (ctz bits)"
      using ctz_bit [OF False] by simp_all
    have j0: "j0 < 16" using c(1) by (simp add: j0_def)
    have even: "ctz bits = 2 * j0"
    proof (rule ccontr)
      assume "ctz bits \<noteq> 2 * j0"
      then have o: "ctz bits = Suc (2 * j0)" by (simp add: j0_def)
      then have "bit bits (2 * j0)" using paired [OF j0] c(2) by simp
      moreover have "\<not> bit bits (2 * j0)" using o by (intro ctz_least) simp
      ultimately show False by simp
    qed
    have bj0: "bit bits (2 * j0)" using c(2) even by simp
    have st': "st' = ?F bits j0 st"
      using bj0 by (cases st) (simp add: st'_def lane_step_def j0_def)
    have low: "?F bits l = (\<lambda>s. s)" if "l < j0" for l
    proof -
      have "2 * l < ctz bits" using that even by simp
      then show ?thesis by (simp add: ctz_least fun_eq_iff)
    qed
    have pre: "fold (?F bits) [0..<j0] s = s" for s :: "'i cstate"
      by (rule fold_ident_on) (simp add: low)
    have lhs: "fold (?F bits) [0..<16] st = fold (?F bits) [Suc j0..<16] st'"
      using fold_lanes_split [OF j0, of "?F bits" st] pre by (simp add: st')
    have b': "bit bits' i \<longleftrightarrow> bit bits i \<and> \<not> (i = 2 * j0 \<or> i = Suc (2 * j0))" for i
      by (simp add: bits'_def bit_clear_pair even)
    have paired': "bit bits' (Suc (2 * l)) = bit bits' (2 * l)" if "l < 16" for l
      using paired [OF that] by (auto simp: b')
    have low': "?F bits' l = (\<lambda>s. s)" if "l \<le> j0" for l
    proof (cases "l = j0")
      case True
      then show ?thesis by (simp add: b' fun_eq_iff)
    next
      case False
      then have "l < j0" using that by simp
      then have "\<not> bit bits (2 * l)"
        using ctz_least [of "2 * l" bits] even by simp
      then show ?thesis by (simp add: b' fun_eq_iff)
    qed
    have pre': "fold (?F bits') [0..<j0] s = s" for s :: "'i cstate"
      by (rule fold_ident_on) (simp add: low')
    have hi: "?F bits' l = ?F bits l" if "j0 < l" for l
      using that by (simp add: b')
    have "fold (?F bits') [Suc j0..<16] st' = fold (?F bits) [Suc j0..<16] st'"
      by (rule fold_cong) (simp_all add: hi)
    then have rhs: "fold (?F bits') [0..<16] st' = fold (?F bits) [Suc j0..<16] st'"
      using fold_lanes_split [OF j0, of "?F bits'" st'] pre' low' [of j0] by simp
    have "collect_lt (bits AND NOT (push_bit (ctz bits) 3)) i0 (keep (i0 + ctz bits div 2) 0 st) =
        fold (?F (bits AND NOT (push_bit (ctz bits) 3))) [0..<16] (keep (i0 + ctz bits div 2) 0 st)"
      by (rule 1(1) [OF False refl refl refl]) (use paired' in \<open>simp add: bits'_def\<close>)
    then have IH: "collect_lt bits' i0 st' = fold (?F bits') [0..<16] st'"
      unfolding st'_def bits'_def .
    have "collect_lt bits i0 st =
        collect_lt (bits AND NOT (push_bit (ctz bits) 3)) i0 (keep (i0 + ctz bits div 2) 0 st)"
      by (subst collect_lt.simps) (simp only: False if_False Let_def)
    then have step: "collect_lt bits i0 st = collect_lt bits' i0 st'"
      unfolding st'_def bits'_def .
    show ?thesis
      using step IH rhs lhs by simp
  qed
qed

lemma length_to_bytes: "length (to_bytes a) = 2 * length a"
  by (induction a) (simp_all add: to_bytes_def)

lemma nth_to_bytes:
  "j < length a \<Longrightarrow>
     to_bytes a ! (2 * j) = ucast (a ! j) \<and> to_bytes a ! Suc (2 * j) = ucast (drop_bit 8 (a ! j))"
proof (induction a arbitrary: j)
  case Nil
  then show ?case by simp
next
  case (Cons x a)
  show ?case
  proof (cases j)
    case 0
    then show ?thesis by (simp add: to_bytes_def)
  next
    case (Suc j')
    with Cons.prems have "j' < length a" by simp
    from Cons.IH [OF this] show ?thesis
      by (simp add: to_bytes_def Suc)
  qed
qed

lemma bit_AAAAAAAA: "bit (0xAAAAAAAA :: u32) i \<longleftrightarrow> i < 32 \<and> odd i"
proof -
  have "(0xAAAAAAAA :: u32) = horner_sum of_bool 2 (map odd [0..<32::nat])"
    by (simp add: upt_0_numeral comp_def)
  then show ?thesis
    by (simp only: bit_horner_sum_bit_word_iff) (auto simp del: upt_rec_numeral)
qed

lemma nth_blendv:
  assumes "i < length a" "length b = length a" "length m = length a"
  shows "blendv_epi8 a b m ! i = (if bit (m ! i) 7 then b ! i else a ! i)"
  using assms by (simp add: blendv_epi8_def)

lemma length_blendv:
  "length b = length a \<Longrightarrow> length m = length a \<Longrightarrow> length (blendv_epi8 a b m) = length a"
  by (simp add: blendv_epi8_def)

lemma mask_lane_bytes:
  "bit (ucast (if P then 0xffff else 0 :: u16) :: u8) 7 \<longleftrightarrow> P"
  "bit (ucast (drop_bit 8 (if P then 0xffff else 0 :: u16)) :: u8) 7 \<longleftrightarrow> P"
  by (simp_all add: drop_bit_eq_div)

lemma mixmask_bytes:
  "\<not> bit (ucast (0xff00 :: u16) :: u8) 7"
  "bit (ucast (drop_bit 8 (0xff00 :: u16)) :: u8) 7"
  by (simp_all add: drop_bit_eq_div)

lemma block1_bits:
  fixes C :: policy and t :: u16 and v :: "u16 list"
  assumes "length v = 16" "j < 16"
  defines "bits \<equiv> movemask_epi8
      (blendv_epi8 (to_bytes (lanes_eq v (set1 t))) (to_bytes (lanes_eq v (max_func C v (set1 t))))
         (to_bytes (set1 0xff00))) XOR 0xAAAAAAAA"
  shows "bit bits (2 * j) \<longleftrightarrow> v ! j = t" and "bit bits (Suc (2 * j)) \<longleftrightarrow> cmp C t (v ! j)"
proof -
  let ?E = "map (\<lambda>x. if x = t then 0xffff else 0 :: u16) v"
  let ?G = "map (\<lambda>x. if \<not> cmp C t x then 0xffff else 0 :: u16) v"
  let ?M = "replicate 16 (0xff00 :: u16)"
  let ?bl = "blendv_epi8 (to_bytes ?E) (to_bytes ?G) (to_bytes ?M)"
  have bits: "bits = movemask_epi8 ?bl XOR 0xAAAAAAAA"
    unfolding bits_def lanes_eq_set1 [OF assms(1)] lanes_ge [OF assms(1)]
    by (simp add: set1_def)
  have len: "length (to_bytes ?E) = 32" "length (to_bytes ?G) = 32" "length (to_bytes ?M) = 32"
    using assms(1) by (simp_all add: length_to_bytes)
  have lbl: "length ?bl = 32"
    using len by (simp add: length_blendv)
  have i: "2 * j < 32" "Suc (2 * j) < 32" using assms(2) by simp_all
  have nE: "to_bytes ?E ! (2 * j) = ucast (?E ! j)"
    using nth_to_bytes [of j ?E] assms by simp
  have nG: "to_bytes ?G ! Suc (2 * j) = ucast (drop_bit 8 (?G ! j))"
    using nth_to_bytes [of j ?G] assms by simp
  have nM: "to_bytes ?M ! (2 * j) = ucast (0xff00 :: u16)"
      "to_bytes ?M ! Suc (2 * j) = ucast (drop_bit 8 (0xff00 :: u16))"
    using nth_to_bytes [of j ?M] assms(2) by simp_all
  have b0: "?bl ! (2 * j) = ucast (?E ! j)"
    using nth_blendv [of "2 * j" "to_bytes ?E" "to_bytes ?G" "to_bytes ?M"] len i
    by (simp only: nM mixmask_bytes if_False nE)
  have b1: "?bl ! Suc (2 * j) = ucast (drop_bit 8 (?G ! j))"
    using nth_blendv [of "Suc (2 * j)" "to_bytes ?E" "to_bytes ?G" "to_bytes ?M"] len i
    by (simp only: nM mixmask_bytes if_True nG)
  have Ej: "?E ! j = (if v ! j = t then 0xffff else 0)"
    using assms by simp
  have Gj: "?G ! j = (if \<not> cmp C t (v ! j) then 0xffff else 0)"
    using assms by simp
  show "bit bits (2 * j) \<longleftrightarrow> v ! j = t"
    unfolding bits bit_xor_iff bit_movemask bit_AAAAAAAA b0 Ej mask_lane_bytes
    using i lbl by simp
  show "bit bits (Suc (2 * j)) \<longleftrightarrow> cmp C t (v ! j)"
    unfolding bits bit_xor_iff bit_movemask bit_AAAAAAAA b1 Gj mask_lane_bytes
    using i lbl by simp
qed

lemma block2_bits:
  fixes C :: policy and t :: u16 and v :: "u16 list"
  assumes "length v = 16" "j < 16"
  defines "bits \<equiv> NOT (movemask_epi8 (to_bytes (lanes_eq v (max_func C v (set1 t)))))"
  shows "bit bits (2 * j) \<longleftrightarrow> cmp C t (v ! j)" and "bit bits (Suc (2 * j)) \<longleftrightarrow> cmp C t (v ! j)"
proof -
  let ?G = "map (\<lambda>x. if \<not> cmp C t x then 0xffff else 0 :: u16) v"
  have bits: "bits = NOT (movemask_epi8 (to_bytes ?G))"
    unfolding bits_def lanes_ge [OF assms(1)] by simp
  have len: "length (to_bytes ?G) = 32"
    using assms(1) by (simp add: length_to_bytes)
  have i: "2 * j < 32" "Suc (2 * j) < 32" using assms(2) by simp_all
  have nG: "to_bytes ?G ! (2 * j) = ucast (?G ! j)"
      "to_bytes ?G ! Suc (2 * j) = ucast (drop_bit 8 (?G ! j))"
    using nth_to_bytes [of j ?G] assms by simp_all
  have Gj: "?G ! j = (if \<not> cmp C t (v ! j) then 0xffff else 0)"
    using assms by simp
  show "bit bits (2 * j) \<longleftrightarrow> cmp C t (v ! j)"
    unfolding bits bit_not_iff bit_movemask nG Gj mask_lane_bytes
    using i len by simp
  show "bit bits (Suc (2 * j)) \<longleftrightarrow> cmp C t (v ! j)"
    unfolding bits bit_not_iff bit_movemask nG Gj mask_lane_bytes
    using i len by simp
qed

lemma budget_le: "budget C t k xs \<le> k"
  by (induction xs arbitrary: k) (auto intro: le_trans [OF _ diff_le_self])

lemma budget_take_mono:
  "i \<le> j \<Longrightarrow> budget C t k (take j xs) \<le> budget C t k (take i xs)"
proof -
  assume "i \<le> j"
  then have "take j xs = take i xs @ take (j - i) (drop i xs)"
    by (metis le_add_diff_inverse take_add)
  then show ?thesis
    by (simp add: budget_append budget_le)
qed

lemma cnorm_budget:
  "snd (snd (snd (cnorm C t k vals ids i))) = budget C t k (take i (zip vals ids))"
  by (simp add: cnorm_def Let_def)

lemma load_cnorm:
  assumes "length vals = n" "i0 + 16 \<le> n"
  shows "load (fst (cnorm C t k vals ids i0)) i0 = take 16 (drop i0 vals)"
proof -
  have "length (kept C t k (take i0 (zip vals ids))) \<le> i0"
    using length_kept_le [of C t k "take i0 (zip vals ids)"] by simp
  then show ?thesis
    using assms by (simp add: cnorm_def Let_def load_def)
qed

lemma lane_step_cnorm:
  assumes "length vals = n" "length ids = n" "i < n"
    and "is_lt = cmp C t (vals ! i)"
    and "is_eq = (vals ! i = t) \<or> budget C t k (take i (zip vals ids)) = 0"
  shows "lane_step is_eq is_lt i (cnorm C t k vals ids i) = cnorm C t k vals ids (Suc i)"
proof -
  obtain vs "is" wp n_eq where c: "cnorm C t k vals ids i = (vs, is, wp, n_eq)"
    by (cases "cnorm C t k vals ids i") auto
  have "n_eq = budget C t k (take i (zip vals ids))"
    using cnorm_budget [of C t k vals ids i] c by simp
  with assms(4,5) show ?thesis
    by (auto simp: cnorm_Suc [OF assms(1-3)] c lane_step_def)
qed

lemma lane_fold_cnorm:
  assumes "length vals = n" "length ids = n" "i0 + m \<le> n"
    and "\<And>j. j < m \<Longrightarrow> is_lt j = cmp C t (vals ! (i0 + j))"
    and "(\<forall>j<m. is_eq j = (vals ! (i0 + j) = t)) \<or> budget C t k (take i0 (zip vals ids)) = 0"
  shows "fold (\<lambda>j. lane_step (is_eq j) (is_lt j) (i0 + j)) [0..<m] (cnorm C t k vals ids i0) =
     cnorm C t k vals ids (i0 + m)"
  using assms(3,4,5)
proof (induction m)
  case 0
  then show ?case by simp
next
  case (Suc m)
  have IH: "fold (\<lambda>j. lane_step (is_eq j) (is_lt j) (i0 + j)) [0..<m] (cnorm C t k vals ids i0) =
     cnorm C t k vals ids (i0 + m)"
    using Suc by auto
  have b: "is_eq m = (vals ! (i0 + m) = t) \<or> budget C t k (take (i0 + m) (zip vals ids)) = 0"
    using Suc.prems(3) budget_take_mono [of i0 "i0 + m" C t k "zip vals ids"] by auto
  have "lane_step (is_eq m) (is_lt m) (i0 + m) (cnorm C t k vals ids (i0 + m)) =
      cnorm C t k vals ids (Suc (i0 + m))"
    using Suc.prems(1) by (intro lane_step_cnorm [OF assms(1,2)] Suc.prems(2) b) simp_all
  then show ?case
    using IH by simp
qed

lemma compress_block1_cnorm:
  assumes "length vals = n" "length ids = n" "i0 + 16 \<le> n"
  shows "compress_block1 C (set1 t) (set1 0xff00) i0 (cnorm C t k vals ids i0) =
     cnorm C t k vals ids (i0 + 16)"
proof -
  obtain vs "is" wp n_eq where c: "cnorm C t k vals ids i0 = (vs, is, wp, n_eq)"
    by (cases "cnorm C t k vals ids i0") auto
  define v where "v = take 16 (drop i0 vals)"
  have ld: "load vs i0 = v"
    using load_cnorm [OF assms(1,3), of C t k ids] c by (simp add: v_def)
  have lv: "length v = 16" using assms by (simp add: v_def)
  have nv: "v ! j = vals ! (i0 + j)" if "j < 16" for j
    using that assms by (simp add: v_def)
  define bits where "bits = movemask_epi8
      (blendv_epi8 (to_bytes (lanes_eq v (set1 t))) (to_bytes (lanes_eq v (max_func C v (set1 t))))
         (to_bytes (set1 0xff00))) XOR 0xAAAAAAAA"
  have "compress_block1 C (set1 t) (set1 0xff00) i0 (vs, is, wp, n_eq) =
      collect_eq_lt bits i0 (vs, is, wp, n_eq)"
    by (simp add: compress_block1_def Let_def ld bits_def)
  also have "\<dots> = fold (\<lambda>j. lane_step (bit bits (2 * j)) (bit bits (Suc (2 * j))) (i0 + j)) [0..<16]
      (cnorm C t k vals ids i0)"
    by (simp only: collect_eq_lt_fold c)
  also have "\<dots> = cnorm C t k vals ids (i0 + 16)"
    using block1_bits [OF lv, of _ t C] nv
    by (intro lane_fold_cnorm [OF assms]) (simp_all add: bits_def)
  finally show ?thesis by (simp add: c)
qed

lemma compress_block2_cnorm:
  assumes "length vals = n" "length ids = n" "i0 + 16 \<le> n"
    and "budget C t k (take i0 (zip vals ids)) = 0"
  shows "compress_block2 C (set1 t) i0 (cnorm C t k vals ids i0) =
     cnorm C t k vals ids (i0 + 16)"
proof -
  obtain vs "is" wp n_eq where c: "cnorm C t k vals ids i0 = (vs, is, wp, n_eq)"
    by (cases "cnorm C t k vals ids i0") auto
  define v where "v = take 16 (drop i0 vals)"
  have ld: "load vs i0 = v"
    using load_cnorm [OF assms(1,3), of C t k ids] c by (simp add: v_def)
  have lv: "length v = 16" using assms by (simp add: v_def)
  have nv: "v ! j = vals ! (i0 + j)" if "j < 16" for j
    using that assms by (simp add: v_def)
  define bits where "bits = NOT (movemask_epi8 (to_bytes (lanes_eq v (max_func C v (set1 t)))))"
  have paired: "bit bits (Suc (2 * l)) = bit bits (2 * l)" if "l < 16" for l
    using block2_bits [OF lv that, of C t] by (simp add: bits_def)
  have "compress_block2 C (set1 t) i0 (vs, is, wp, n_eq) = collect_lt bits i0 (vs, is, wp, n_eq)"
    by (simp add: compress_block2_def Let_def ld bits_def)
  also have "\<dots> = fold (\<lambda>j. lane_step False (bit bits (2 * j)) (i0 + j)) [0..<16]
      (cnorm C t k vals ids i0)"
    using collect_lt_fold [of bits i0 "(vs, is, wp, n_eq)"] paired by (simp only: c)
  also have "\<dots> = cnorm C t k vals ids (i0 + 16)"
    using block2_bits [OF lv, of _ C t] nv assms(4)
    by (intro lane_fold_cnorm [OF assms(1-3)]) (simp_all add: bits_def)
  finally show ?thesis by (simp add: c)
qed

lemma compress_loop1_cnorm:
  assumes "length vals = n" "length ids = n" "16 * b \<le> n"
  shows "\<exists>b'. 16 * b' \<le> n \<and>
     compress_loop1 C (set1 t) (set1 0xff00) n (16 * b) (cnorm C t k vals ids (16 * b)) =
       (16 * b', cnorm C t k vals ids (16 * b')) \<and>
     (\<not> 16 * b' + 15 < n \<or> budget C t k (take (16 * b') (zip vals ids)) = 0)"
  using assms(3)
proof (induction "n - 16 * b" arbitrary: b rule: less_induct)
  case less
  obtain vs "is" wp n_eq where c: "cnorm C t k vals ids (16 * b) = (vs, is, wp, n_eq)"
    by (cases "cnorm C t k vals ids (16 * b)") auto
  have ne: "n_eq = budget C t k (take (16 * b) (zip vals ids))"
    using cnorm_budget [of C t k vals ids "16 * b"] c by simp
  show ?case
  proof (cases "16 * b + 15 < n \<and> n_eq > 0")
    case True
    then have le: "16 * b + 16 \<le> n" by simp
    have blk: "compress_block1 C (set1 t) (set1 0xff00) (16 * b) (vs, is, wp, n_eq) =
        cnorm C t k vals ids (16 * Suc b)"
      using compress_block1_cnorm [OF assms(1,2) le, of C t k] by (simp add: c add.commute)
    have "n - 16 * Suc b < n - 16 * b" using le by simp
    from less.hyps [OF this] le obtain b' where b': "16 * b' \<le> n"
      "compress_loop1 C (set1 t) (set1 0xff00) n (16 * Suc b) (cnorm C t k vals ids (16 * Suc b)) =
         (16 * b', cnorm C t k vals ids (16 * b'))"
      "\<not> 16 * b' + 15 < n \<or> budget C t k (take (16 * b') (zip vals ids)) = 0"
      by auto
    have "compress_loop1 C (set1 t) (set1 0xff00) n (16 * b) (vs, is, wp, n_eq) =
        compress_loop1 C (set1 t) (set1 0xff00) n (16 * Suc b) (cnorm C t k vals ids (16 * Suc b))"
      using True by (subst compress_loop1.simps) (simp add: blk add.commute)
    with b' show ?thesis
      unfolding c by metis
  next
    case False
    then have "compress_loop1 C (set1 t) (set1 0xff00) n (16 * b) (vs, is, wp, n_eq) =
        (16 * b, (vs, is, wp, n_eq))"
      by (subst compress_loop1.simps) auto
    with False less.prems ne show ?thesis
      unfolding c [symmetric] by (intro exI [of _ b]) (auto simp: c)
  qed
qed

lemma compress_loop2_cnorm:
  assumes "length vals = n" "length ids = n" "16 * b \<le> n"
    and "\<not> 16 * b + 15 < n \<or> budget C t k (take (16 * b) (zip vals ids)) = 0"
  shows "compress_loop2 C (set1 t) n (16 * b) (cnorm C t k vals ids (16 * b)) =
     cnorm C t k vals ids (16 * (n div 16))"
  using assms(3,4)
proof (induction "n - 16 * b" arbitrary: b rule: less_induct)
  case less
  show ?case
  proof (cases "16 * b + 15 < n")
    case True
    then have le: "16 * b + 16 \<le> n" by simp
    have z: "budget C t k (take (16 * b) (zip vals ids)) = 0"
      using less.prems True by simp
    have z': "budget C t k (take (16 * Suc b) (zip vals ids)) = 0"
      using budget_take_mono [of "16 * b" "16 * Suc b" C t k "zip vals ids"] z by simp
    have blk: "compress_block2 C (set1 t) (16 * b) (cnorm C t k vals ids (16 * b)) =
        cnorm C t k vals ids (16 * Suc b)"
      using compress_block2_cnorm [OF assms(1,2) le z] by (simp add: add.commute)
    have "n - 16 * Suc b < n - 16 * b" using le by simp
    from less.hyps [OF this] le z'
    have "compress_loop2 C (set1 t) n (16 * Suc b) (cnorm C t k vals ids (16 * Suc b)) =
        cnorm C t k vals ids (16 * (n div 16))"
      by simp
    then show ?thesis
      using True by (subst compress_loop2.simps) (simp add: blk add.commute)
  next
    case False
    with less.prems have "n div 16 = b" by (simp add: div_nat_eqI)
    then show ?thesis
      using False by (subst compress_loop2.simps) simp
  qed
qed

lemma compress_tail_cnorm:
  assumes "length vals = n" "length ids = n" "a \<le> b" "b \<le> n"
  shows "fold (compress_tail_step C t) [a..<b] (cnorm C t k vals ids a) = cnorm C t k vals ids b"
  using assms(3,4)
proof (induction b)
  case 0
  then show ?case by simp
next
  case (Suc b)
  show ?case
  proof (cases "a = Suc b")
    case True
    then show ?thesis by simp
  next
    case False
    with Suc.prems have ab: "a \<le> b" "b < n" by simp_all
    have IH: "fold (compress_tail_step C t) [a..<b] (cnorm C t k vals ids a) = cnorm C t k vals ids b"
      using Suc.IH ab by simp
    have "compress_tail_step C t b (cnorm C t k vals ids b) =
        compress_step C t b (cnorm C t k vals ids b)"
      by (cases "cnorm C t k vals ids b") (auto simp: compress_tail_step_def compress_step_def)
    then show ?thesis
      using IH ab compress_step_cnorm [OF assms(1,2) ab(2), of C t k] by simp
  qed
qed

lemma simd_compress_array_eq:
  assumes "length vals = n" "length ids = n"
  shows "simd_compress_array C vals ids n t k = compress_array C vals ids n t k"
proof -
  have z: "16 * 0 \<le> n" by simp
  obtain b' where b': "16 * b' \<le> n"
      "compress_loop1 C (set1 t) (set1 0xff00) n 0 (vals, ids, 0, k) =
         (16 * b', cnorm C t k vals ids (16 * b'))"
      "\<not> 16 * b' + 15 < n \<or> budget C t k (take (16 * b') (zip vals ids)) = 0"
    using compress_loop1_cnorm [OF assms z, of C t k] by (auto simp: cnorm_0)
  have l2: "compress_loop2 C (set1 t) n (16 * b') (cnorm C t k vals ids (16 * b')) =
      cnorm C t k vals ids (16 * (n div 16))"
    using compress_loop2_cnorm [OF assms b'(1,3)] .
  have tl: "fold (compress_tail_step C t) [16 * (n div 16)..<n] (cnorm C t k vals ids (16 * (n div 16)))
      = cnorm C t k vals ids n"
    by (rule compress_tail_cnorm [OF assms]) simp_all
  show ?thesis
    using compress_fold [OF assms, of n C t k]
    by (simp add: simd_compress_array_def compress_array_def Let_def b'(2) l2 tl)
qed

subsection \<open>Minimum and maximum\<close>

lemma fold_minmax:
  "fold (\<lambda>i (a, b). (min a (f i), max b (g i))) xs (a0, b0) = (a, b) \<Longrightarrow>
     a \<le> a0 \<and> b0 \<le> b \<and> (\<forall>i \<in> set xs. a \<le> f i \<and> g i \<le> b)"
  for a0 b0 :: "'a :: linorder"
proof (induction xs arbitrary: a0 b0)
  case Nil
  then show ?case by simp
next
  case (Cons x xs)
  from Cons.prems have "fold (\<lambda>i (a, b). (min a (f i), max b (g i))) xs (min a0 (f x), max b0 (g x)) = (a, b)"
    by simp
  from Cons.IH [OF this] show ?case
    by (auto simp: min_le_iff_disj le_max_iff_disj)
qed

lemma minimax_blocks:
  assumes "16 * m \<le> length vals"
    and "fold (\<lambda>i (vmin, vmax). let v = load vals i in (accu_min vmin v, accu_max vmax v))
           (map (\<lambda>b. 16 * b) [0..<m]) (set1 0xffff, set1 0) = (vmin, vmax)"
  shows "length vmin = 16 \<and> length vmax = 16 \<and>
     (\<forall>j<16. \<forall>c<m. vmin ! j \<le> vals ! (16 * c + j) \<and> vals ! (16 * c + j) \<le> vmax ! j)"
  using assms
proof (induction m arbitrary: vmin vmax)
  case 0
  then show ?case by (auto simp: set1_def)
next
  case (Suc m)
  let ?f = "\<lambda>i (vmin, vmax). let v = load vals i in (accu_min vmin v, accu_max vmax v)"
  obtain vmin0 vmax0 where p: "fold ?f (map (\<lambda>b. 16 * b) [0..<m]) (set1 0xffff, set1 0) = (vmin0, vmax0)"
    by (cases "fold ?f (map (\<lambda>b. 16 * b) [0..<m]) (set1 0xffff, set1 0)") auto
  have le: "16 * m \<le> length vals" "16 * m + 16 \<le> length vals" using Suc.prems(1) by simp_all
  from Suc.IH [OF le(1) p] have IH: "length vmin0 = 16" "length vmax0 = 16"
    "\<And>j c. j < 16 \<Longrightarrow> c < m \<Longrightarrow> vmin0 ! j \<le> vals ! (16 * c + j) \<and> vals ! (16 * c + j) \<le> vmax0 ! j"
    by auto
  let ?v = "load vals (16 * m)"
  have lv: "length ?v = 16" using le(2) by (simp add: load_def)
  have nv: "?v ! j = vals ! (16 * m + j)" if "j < 16" for j
    using that le(2) by (simp add: load_def)
  have r: "vmin = accu_min vmin0 ?v" "vmax = accu_max vmax0 ?v"
    using Suc.prems(2) p by (simp_all add: Let_def)
  have nmin: "vmin ! j = min (vmin0 ! j) (vals ! (16 * m + j))" if "j < 16" for j
    using that IH(1) lv nv by (simp add: r accu_min_def)
  have nmax: "vmax ! j = max (vmax0 ! j) (vals ! (16 * m + j))" if "j < 16" for j
    using that IH(2) lv nv by (simp add: r accu_max_def)
  have "vmin ! j \<le> vals ! (16 * c + j) \<and> vals ! (16 * c + j) \<le> vmax ! j"
    if "j < 16" "c < Suc m" for j c
  proof (cases "c = m")
    case True
    then show ?thesis using nmin [OF that(1)] nmax [OF that(1)] by simp
  next
    case False
    then have "c < m" using that(2) by simp
    from IH(3) [OF that(1) this] show ?thesis
      using nmin [OF that(1)] nmax [OF that(1)] by (simp add: min_le_iff_disj le_max_iff_disj)
  qed
  moreover have "length vmin = 16" "length vmax = 16"
    using IH(1,2) lv by (simp_all add: r accu_min_def accu_max_def)
  ultimately show ?case by blast
qed

lemma find_minimax_bounds:
  assumes "length vals = n" "find_minimax vals n = (lo, hi)" "i < n"
  shows "lo \<le> vals ! i \<and> vals ! i \<le> hi"
proof -
  let ?f = "\<lambda>i (vmin, vmax). let v = load vals i in (accu_min vmin v, accu_max vmax v)"
  obtain vmin vmax where p1: "fold ?f (map (\<lambda>b. 16 * b) [0..<n div 16]) (set1 0xffff, set1 0) = (vmin, vmax)"
    by (cases "fold ?f (map (\<lambda>b. 16 * b) [0..<n div 16]) (set1 0xffff, set1 0)") auto
  have le: "16 * (n div 16) \<le> length vals" using assms(1) by simp
  from minimax_blocks [OF le p1] have b1: "length vmin = 16" "length vmax = 16"
    "\<And>j c. j < 16 \<Longrightarrow> c < n div 16 \<Longrightarrow> vmin ! j \<le> vals ! (16 * c + j) \<and> vals ! (16 * c + j) \<le> vmax ! j"
    by auto
  let ?tab = "vmin @ vmax"
  let ?g = "\<lambda>i (smin, smax). (min smin (?tab ! i), max smax (?tab ! (i + 16)))"
  obtain smin smax where p2: "fold ?g [1..<16] (?tab ! 0, ?tab ! 16) = (smin, smax)"
    by (cases "fold ?g [1..<16] (?tab ! 0, ?tab ! 16)") auto
  from fold_minmax [OF p2] have b2: "smin \<le> ?tab ! 0" "?tab ! 16 \<le> smax"
    "\<And>j. j \<in> set [1..<16] \<Longrightarrow> smin \<le> ?tab ! j \<and> ?tab ! (j + 16) \<le> smax"
    by auto
  have b2': "smin \<le> vmin ! j \<and> vmax ! j \<le> smax" if "j < 16" for j
  proof (cases "j = 0")
    case True
    then show ?thesis using b2(1,2) b1(1,2) by (simp add: nth_append)
  next
    case False
    then have "j \<in> set [1..<16]" using that by simp
    from b2(3) [OF this] show ?thesis using b1(1,2) that by (simp add: nth_append)
  qed
  let ?h = "\<lambda>i (smin, smax). (min smin (vals ! i), max smax (vals ! i))"
  have p3: "fold ?h [16 * (n div 16)..<n] (smin, smax) = (lo, hi)"
    using assms(2) p1 p2 by (simp add: find_minimax_def Let_def)
  from fold_minmax [OF p3] have b3: "lo \<le> smin" "smax \<le> hi"
    "\<And>j. j \<in> set [16 * (n div 16)..<n] \<Longrightarrow> lo \<le> vals ! j \<and> vals ! j \<le> hi"
    by auto
  show ?thesis
  proof (cases "i < 16 * (n div 16)")
    case True
    then have c: "i div 16 < n div 16" by (simp add: less_mult_imp_div_less mult.commute)
    have j: "i mod 16 < 16" by simp
    have "16 * (i div 16) + i mod 16 = i" by simp
    with b1(3) [OF j c] have "vmin ! (i mod 16) \<le> vals ! i \<and> vals ! i \<le> vmax ! (i mod 16)"
      by simp
    with b2' [OF j] b3(1,2) show ?thesis by auto
  next
    case False
    then have "i \<in> set [16 * (n div 16)..<n]" using assms(3) by simp
    from b3(3) [OF this] show ?thesis .
  qed
qed

section \<open>Outcome of the two partitioners\<close>

lemma unat_of_nat_u16: "t < 65536 \<Longrightarrow> unat (of_nat t :: u16) = t"
  by (simp add: unat_of_nat)

lemma length_filter_disj:
  assumes "\<And>x. x \<in> set xs \<Longrightarrow> \<not> (P x \<and> Q x)"
  shows "length (filter P xs) + length (filter Q xs) = length (filter (\<lambda>x. P x \<or> Q x) xs)"
  using assms by (induction xs) auto

lemma below_le: "below s vals \<le> length vals"
  by (simp add: below_def)

lemma better_CMax:
  assumes "t < 65536"
  shows "n_better CMax (of_nat t) vals = below t vals"
proof -
  have "cmp CMax (of_nat t) = (\<lambda>v :: u16. unat v < t)"
    using unat_of_nat_u16 [OF assms] by (simp add: word_less_nat_alt fun_eq_iff)
  then show ?thesis by (simp only: n_better_def below_def)
qed

lemma better_eq_CMax:
  assumes "t < 65536"
  shows "n_better CMax (of_nat t) vals + n_equal (of_nat t) vals = below (Suc t) vals"
proof -
  have a: "cmp CMax (of_nat t) v \<or> v = of_nat t \<longleftrightarrow> unat v < Suc t" for v :: u16
    using unat_of_nat_u16 [OF assms] by (auto simp: word_less_nat_alt less_Suc_eq word_unat_eq_iff)
  have "n_better CMax (of_nat t) vals + n_equal (of_nat t) vals =
      length (filter (\<lambda>v. cmp CMax (of_nat t) v \<or> v = of_nat t) vals)"
    unfolding n_better_def n_equal_def by (rule length_filter_disj) auto
  then show ?thesis by (simp only: a below_def)
qed

lemma better_eq_CMin:
  assumes "t < 65536"
  shows "n_better CMin (of_nat t) vals + n_equal (of_nat t) vals = length vals - below t vals"
proof -
  have a: "cmp CMin (of_nat t) v \<or> v = of_nat t \<longleftrightarrow> \<not> unat v < t" for v :: u16
    using unat_of_nat_u16 [OF assms] by (auto simp: word_less_nat_alt word_unat_eq_iff)
  have "n_better CMin (of_nat t) vals + n_equal (of_nat t) vals =
      length (filter (\<lambda>v. cmp CMin (of_nat t) v \<or> v = of_nat t) vals)"
    unfolding n_better_def n_equal_def by (rule length_filter_disj) auto
  then show ?thesis
    using sum_length_filter_compl [of "\<lambda>v. unat v < t" vals] by (simp only: a below_def)
qed

lemma better_CMin:
  assumes "t < 65536"
  shows "n_better CMin (of_nat t) vals = length vals - below (Suc t) vals"
proof -
  have a: "cmp CMin (of_nat t) = (\<lambda>v :: u16. \<not> unat v < Suc t)"
    using unat_of_nat_u16 [OF assms] by (auto simp: word_less_nat_alt fun_eq_iff)
  show ?thesis
    using sum_length_filter_compl [of "\<lambda>v. unat v < Suc t" vals]
    unfolding a below_def n_better_def by linarith
qed

lemma halve_width:
  assumes "s1 - s0 \<le> 2 ^ Suc m" "(s0::nat) < s1"
  shows "s1 - (s0 + s1) div 2 \<le> 2 ^ m" "(s0 + s1) div 2 - s0 \<le> 2 ^ m"
  using assms by simp_all

lemma simd_bisect_target:
  assumes "length vals = n" "q_min \<le> q_max"
    and "bounds_inv C vals q_min q_max s0 s1" "s1 - s0 \<le> 2 ^ m" "m < it"
  shows "\<exists>s0' s1' t n_eq q.
     simd_bisect it C vals n q_min q_max s0 s1 old =
       (s0', s1', int t, n_better C (of_nat t) vals, n_eq, q) \<and>
     t < 65536 \<and> n_eq = n_equal (of_nat t) vals \<and> q_min \<le> q \<and> q \<le> q_max \<and>
     n_better C (of_nat t) vals \<le> q \<and> q \<le> n_better C (of_nat t) vals + n_eq"
  using assms(3,4,5)
proof (induction it arbitrary: s0 s1 m old)
  case 0
  then show ?case by simp
next
  case (Suc it)
  define t where "t = (s0 + s1) div 2"
  define n_lt where "n_lt = n_better C (of_nat t) vals"
  define n_eq where "n_eq = n_equal (of_nat t) vals"
  have inv: "s0 < s1" "s1 \<le> 65536" using Suc.prems(1) by (simp_all add: bounds_inv_def)
  have t: "s0 \<le> t" "t < s1" "t < 65536" using inv by (simp_all add: t_def)
  have cnt: "simd_count_lt_and_eq C vals n (of_nat t) = (n_lt, n_eq)"
    by (simp add: simd_count_lt_and_eq_eq [OF assms(1)] n_lt_def n_eq_def)
  consider (hit_min) "n_lt \<le> q_min" "q_min \<le> n_lt + n_eq"
    | (hit_lt) "q_min < n_lt" "n_lt \<le> q_max"
    | (few) "n_lt \<le> q_min" "n_lt + n_eq < q_min"
    | (many) "q_max < n_lt"
    using assms(2) by linarith
  then show ?case
  proof cases
    case hit_min
    then have "simd_bisect (Suc it) C vals n q_min q_max s0 s1 old =
        (s0, s1, int t, n_lt, n_eq, q_min)"
      by (simp add: cnt t_def [symmetric] Let_def)
    then show ?thesis
      using hit_min t(3) assms(2) by (auto simp: n_lt_def n_eq_def)
  next
    case hit_lt
    then have "simd_bisect (Suc it) C vals n q_min q_max s0 s1 old =
        (s0, s1, int t, n_lt, n_eq, n_lt)"
      by (simp add: cnt t_def [symmetric] Let_def)
    then show ?thesis
      using hit_lt t(3) by (auto simp: n_lt_def n_eq_def)
  next
    case few
    have wide: "s0 < t"
    proof (rule ccontr)
      assume "\<not> s0 < t"
      then have e: "t = s0" "s1 = Suc s0" using t inv by (simp_all add: t_def)
      show False
      proof (cases C)
        case CMax
        then show ?thesis
          using Suc.prems(1) few better_eq_CMax [OF t(3), of vals] assms(2)
          by (simp add: bounds_inv_def e n_lt_def n_eq_def)
      next
        case CMin
        then show ?thesis
          using Suc.prems(1) few better_eq_CMin [OF t(3), of vals] assms(2)
          by (simp add: bounds_inv_def e n_lt_def n_eq_def)
      qed
    qed
    then have "2 \<le> s1 - s0" using t by simp
    then obtain m' where m': "m = Suc m'"
      using Suc.prems(2) by (cases m) simp_all
    have w: "s1 - t \<le> 2 ^ m'" "t - s0 \<le> 2 ^ m'"
      using halve_width [of s1 s0 m'] Suc.prems(2) inv(1) by (simp_all add: m' t_def)
    have lt': "m' < it" using Suc.prems(3) m' by simp
    have step: "simd_bisect (Suc it) C vals n q_min q_max s0 s1 old =
        (if is_max C then simd_bisect it C vals n q_min q_max t s1 (int t, n_lt, n_eq)
         else simd_bisect it C vals n q_min q_max s0 t (int t, n_lt, n_eq))"
      using few by (simp add: cnt t_def [symmetric] Let_def)
    show ?thesis
    proof (cases C)
      case CMax
      have "bounds_inv C vals q_min q_max t s1"
        using Suc.prems(1) few t better_CMax [OF t(3), of vals]
        by (simp add: bounds_inv_def CMax n_lt_def)
      from Suc.IH [OF this w(1) lt', of "(int t, n_lt, n_eq)"] show ?thesis
        unfolding step using CMax by simp
    next
      case CMin
      have "bounds_inv C vals q_min q_max s0 t"
        using Suc.prems(1) few wide t better_eq_CMin [OF t(3), of vals]
        by (simp add: bounds_inv_def CMin n_lt_def n_eq_def)
      from Suc.IH [OF this w(2) lt', of "(int t, n_lt, n_eq)"] show ?thesis
        unfolding step using CMin by simp
    qed
  next
    case many
    have wide: "s0 < t"
    proof (rule ccontr)
      assume "\<not> s0 < t"
      then have e: "t = s0" "s1 = Suc s0" using t inv by (simp_all add: t_def)
      show False
      proof (cases C)
        case CMax
        then show ?thesis
          using Suc.prems(1) many better_CMax [OF t(3), of vals] assms(2)
          by (simp add: bounds_inv_def e n_lt_def)
      next
        case CMin
        then show ?thesis
          using Suc.prems(1) many better_CMin [OF t(3), of vals] assms(2)
          by (simp add: bounds_inv_def e n_lt_def)
      qed
    qed
    then have "2 \<le> s1 - s0" using t by simp
    then obtain m' where m': "m = Suc m'"
      using Suc.prems(2) by (cases m) simp_all
    have w: "s1 - t \<le> 2 ^ m'" "t - s0 \<le> 2 ^ m'"
      using halve_width [of s1 s0 m'] Suc.prems(2) inv(1) by (simp_all add: m' t_def)
    have lt': "m' < it" using Suc.prems(3) m' by simp
    have nq: "\<not> n_lt \<le> q_min" "\<not> n_lt \<le> q_max" using many assms(2) by simp_all
    have step: "simd_bisect (Suc it) C vals n q_min q_max s0 s1 old =
        (if is_max C then simd_bisect it C vals n q_min q_max s0 t (int t, n_lt, n_eq)
         else simd_bisect it C vals n q_min q_max t s1 (int t, n_lt, n_eq))"
      using nq by (simp add: cnt t_def [symmetric] Let_def)
    show ?thesis
    proof (cases C)
      case CMax
      have "bounds_inv C vals q_min q_max s0 t"
        using Suc.prems(1) many wide t better_CMax [OF t(3), of vals]
        by (simp add: bounds_inv_def CMax n_lt_def)
      from Suc.IH [OF this w(2) lt', of "(int t, n_lt, n_eq)"] show ?thesis
        unfolding step using CMax by simp
    next
      case CMin
      have "bounds_inv C vals q_min q_max t s1"
        using Suc.prems(1) many t better_eq_CMin [OF t(3), of vals]
        by (simp add: bounds_inv_def CMin n_lt_def)
      from Suc.IH [OF this w(1) lt', of "(int t, n_lt, n_eq)"] show ?thesis
        unfolding step using CMin by simp
    qed
  qed
qed

lemma length_kept:
  "length (kept C t k xs) = n_better C t (map fst xs) + min k (n_equal t (map fst xs))"
  by (induction xs arbitrary: k) (auto simp: n_better_def n_equal_def)

lemma budget_eq: "budget C t k xs = k - n_equal t (map fst xs)"
  by (induction xs arbitrary: k) (auto simp: n_equal_def)

lemma kept_better_or_equal: "p \<in> set (kept C t k xs) \<Longrightarrow> cmp C t (fst p) \<or> fst p = t"
  by (induction xs arbitrary: k) (auto split: if_splits)

lemma kept_keeps_better:
  "filter (\<lambda>p. cmp C t (fst p)) (kept C t k xs) = filter (\<lambda>p. cmp C t (fst p)) xs"
  by (induction xs arbitrary: k) auto

lemma mset_kept: "mset (kept C t k xs) \<subseteq># mset xs"
proof (induction xs arbitrary: k)
  case Nil
  then show ?case by simp
next
  case (Cons x xs)
  have "mset (kept C t k' xs) \<subseteq># add_mset x (mset xs)" for k'
    using Cons [of k'] by (rule subset_mset.order_trans) simp
  with Cons show ?case by simp
qed

lemma compress_array_Inr:
  assumes "length vals = n" "length ids = n"
    and "compress_array C vals ids n T k = Inr (vals', ids', wp)"
  shows "selected C T wp vals ids vals' ids'" and "wp = n_better C T vals + k"
proof -
  let ?K = "kept C T k (zip vals ids)"
  have mf: "map fst (zip vals ids) = vals" using assms(1,2) by simp
  from assms(3) have b: "budget C T k (zip vals ids) = 0"
    and r: "vals' = map fst ?K @ drop (length ?K) vals" "ids' = map snd ?K @ drop (length ?K) ids"
      "wp = length ?K"
    by (auto simp: compress_array_eq [OF assms(1,2)] Let_def split: if_splits)
  from b have k: "k \<le> n_equal T vals" by (simp add: budget_eq mf)
  then show wp: "wp = n_better C T vals + k"
    using r(3) by (simp add: length_kept mf)
  then show "selected C T wp vals ids vals' ids'"
    using k r by (simp add: selected_def Let_def)
qed

lemma compress_array_ok:
  assumes "length vals = n" "length ids = n" "k \<le> n_equal T vals"
  shows "\<exists>vals' ids'. compress_array C vals ids n T k = Inr (vals', ids', n_better C T vals + k)"
proof -
  have mf: "map fst (zip vals ids) = vals" using assms(1,2) by simp
  show ?thesis
    using assms(3) by (simp add: compress_array_eq [OF assms(1,2)] Let_def budget_eq length_kept mf)
qed

lemma bisect_q:
  "bisect it C vals n q_min q_max thresh_inf thresh_sup thresh old = (t', n_lt, n_eq, q) \<Longrightarrow>
     q = 0 \<or> q = q_min \<or> (q_min < q \<and> q \<le> q_max)"
proof (induction it arbitrary: thresh_inf thresh_sup thresh old)
  case 0
  then show ?case by (cases old) simp
next
  case (Suc it)
  then show ?case
    by (auto simp: Let_def split: prod.splits if_splits)
qed

lemma partition_fuzzy_median3_Inr:
  assumes "length vals = n" "length ids = n" "0 < q_min" "q_min \<le> q_max" "q_max < n"
    and "partition_fuzzy_median3 C vals ids n q_min q_max = Inr (T, q, vals', ids')"
  shows "3 \<le> n \<and> selected C T q vals ids vals' ids' \<and> (q = 0 \<or> q_min \<le> q \<and> q \<le> q_max)"
proof -
  have n3: "3 \<le> n"
    using assms(3,5,6) by (auto simp: partition_fuzzy_median3_def split: if_splits)
  obtain thresh1 n_lt n_eq q1 where
    b: "bisect 200 C vals n q_min q_max (neutral (Crev C)) (neutral C)
          (median3 (vals ! 0) (vals ! (n div 2)) (vals ! (n - 1))) (0, 0) =
          (thresh1, n_lt, n_eq, q1)"
    by (metis prod_cases4)
  from bisect_q [OF b] have q1: "q1 = 0 \<or> q1 = q_min \<or> (q_min < q1 \<and> q1 \<le> q_max)" .
  define neg where "neg = (int q1 - int n_lt < 0)"
  define k where "k = (if neg then int q_min else int q1 - int n_lt)"
  define T' where "T' = (if neg then nextafter (Crev C) thresh1 else thresh1)"
  define q' where "q' = (if neg then q_min else q1)"
  have "\<exists>wp. compress_array C vals ids n T' (nat k) = Inr (vals', ids', wp) \<and> wp = q' \<and> T = T' \<and> q = q'"
    using assms(6) n3 assms(3,5)
    unfolding partition_fuzzy_median3_def Let_def b prod.case
    by (auto simp: neg_def k_def T'_def q'_def split: if_splits sum.splits)
  then have c: "compress_array C vals ids n T (nat k) = Inr (vals', ids', q)" and q: "q = q'"
    by auto
  note sel = compress_array_Inr(1) [OF assms(1,2) c]
  moreover have "q = 0 \<or> q_min \<le> q \<and> q \<le> q_max"
    using q1 assms(4) by (auto simp: q q'_def)
  ultimately show ?thesis using n3 by (intro conjI)
qed

lemma kept_all_equal:
  assumes "\<And>p. p \<in> set xs \<Longrightarrow> fst p = t"
  shows "kept C t k xs = take k xs"
  using assms
proof (induction xs arbitrary: k)
  case Nil
  then show ?case by simp
next
  case (Cons x xs)
  then show ?case by (cases k) auto
qed

lemma selected_all_equal:
  assumes "length vals = n" "length ids = n" "q \<le> n" "\<And>i. i < n \<Longrightarrow> vals ! i = t"
  shows "selected C t q vals ids vals ids"
proof -
  have all: "v = t" if "v \<in> set vals" for v
    using that assms(1,4) by (auto simp: in_set_conv_nth)
  have nb: "n_better C t vals = 0"
    using all by (auto simp: n_better_def filter_empty_conv)
  have ne: "n_equal t vals = n"
    using all assms(1) by (simp add: n_equal_def)
  have "fst p = t" if "p \<in> set (zip vals ids)" for p
  proof -
    obtain a b where p: "p = (a, b)" by (cases p)
    with that have "a \<in> set vals" by (auto dest: set_zip_leftD)
    with all p show ?thesis by simp
  qed
  then have K: "kept C t q (zip vals ids) = take q (zip vals ids)"
    by (rule kept_all_equal)
  have "map fst (take q (zip vals ids)) = take q vals" "map snd (take q (zip vals ids)) = take q ids"
    using assms(1,2) by (simp_all add: take_zip [symmetric] take_map [symmetric])
  then show ?thesis
    using assms(3) by (simp add: selected_def Let_def nb ne K)
qed

lemma simd_partition_fuzzy_total:
  assumes "length vals = n" "length ids = n" "0 < q_min" "q_min \<le> q_max" "q_max < n"
  shows "\<exists>T q vals' ids'.
     simd_partition_fuzzy C vals ids n q_min q_max = Inr (T, q, vals', ids') \<and>
     q_min \<le> q \<and> q \<le> q_max \<and> selected C T q vals ids vals' ids'"
proof -
  obtain lo hi where mm: "find_minimax vals n = (lo, hi)"
    by (cases "find_minimax vals n") auto
  have bnd: "lo \<le> vals ! i \<and> vals ! i \<le> hi" if "i < n" for i
    using find_minimax_bounds [OF assms(1) mm that] .
  have nq: "q_min \<noteq> 0" "\<not> n \<le> q_max" using assms by simp_all
  show ?thesis
  proof (cases "lo = hi")
    case True
    have "vals ! i = lo" if "i < n" for i
      using bnd [OF that] True by (simp add: order_antisym)
    then have "selected C lo q_min vals ids vals ids"
      using assms by (intro selected_all_equal [of vals n]) simp_all
    then show ?thesis
      using True nq assms(4)
      by (simp add: simd_partition_fuzzy_def mm simd_partition_fuzzy_with_bounds_def)
  next
    case False
    have "0 < n" using assms(3,4,5) by simp
    from bnd [OF this] have "lo \<le> vals ! 0" "vals ! 0 \<le> hi" by simp_all
    then have "lo \<le> hi" by (rule order_trans)
    with False have lt: "unat lo < unat hi" by (simp add: word_less_nat_alt [symmetric])
    have hi: "unat hi + 1 \<le> 65536" using unsigned_less [of hi, where 'a = nat] by simp
    have bs: "unat lo \<le> unat v \<and> unat v \<le> unat hi" if "v \<in> set vals" for v
    proof -
      from that obtain i where "i < n" "v = vals ! i"
        using assms(1) by (auto simp: in_set_conv_nth)
      with bnd [of i] show ?thesis by (simp add: word_le_nat_alt)
    qed
    have "\<not> unat v < unat lo" if "v \<in> set vals" for v
      using bs [OF that] by simp
    then have b0: "below (unat lo) vals = 0"
      by (simp add: below_def filter_empty_conv)
    have "unat v < unat hi + 1" if "v \<in> set vals" for v
      using bs [OF that] by simp
    then have "filter (\<lambda>v. unat v < unat hi + 1) vals = vals"
      by (simp add: filter_id_conv)
    then have b1: "below (unat hi + 1) vals = n"
      using assms(1) by (simp add: below_def)
    have inv: "bounds_inv C vals q_min q_max (unat lo) (unat hi + 1)"
      using lt hi b0 b1 assms by (simp add: bounds_inv_def)
    have w: "(unat hi + 1) - unat lo \<le> 2 ^ 16" using hi by simp
    obtain s0' s1' t n_eq q where
      r: "simd_bisect 200 C vals n q_min q_max (unat lo) (unat hi + 1) (0, 0, 0) =
            (s0', s1', int t, n_better C (of_nat t) vals, n_eq, q)"
      and p: "t < 65536" "n_eq = n_equal (of_nat t) vals" "q_min \<le> q" "q \<le> q_max"
         "n_better C (of_nat t) vals \<le> q" "q \<le> n_better C (of_nat t) vals + n_eq"
      using simd_bisect_target [OF assms(1,4) inv w, of 200 "(0, 0, 0)"] by auto
    define k where "k = q - n_better C (of_nat t) vals"
    have k: "k \<le> n_equal (of_nat t) vals" "n_better C (of_nat t) vals + k = q"
      using p by (simp_all add: k_def)
    obtain vals' ids' where
      c: "compress_array C vals ids n (of_nat t) k = Inr (vals', ids', q)"
      using compress_array_ok [OF assms(1,2) k(1), of C] k(2) by auto
    have sel: "selected C (of_nat t) q vals ids vals' ids'"
      by (rule compress_array_Inr(1) [OF assms(1,2) c])
    have "simd_partition_fuzzy C vals ids n q_min q_max = Inr (of_nat t, q, vals', ids')"
      using False nq p k
      unfolding simd_partition_fuzzy_def mm prod.case simd_partition_fuzzy_with_bounds_def
        Let_def r
      by (simp add: simd_compress_array_eq [OF assms(1,2)] k_def [symmetric] c nat_diff_distrib')
    with p sel show ?thesis by simp
  qed
qed

lemma cmp_asym: "cmp C t v \<Longrightarrow> \<not> cmp C v t"
  by (cases C) auto

lemma cmp_linear: "T1 = T2 \<or> cmp C T1 T2 \<or> cmp C T2 T1"
  by (cases C) auto

lemma cmp_better_trans: "cmp C T2 T1 \<Longrightarrow> cmp C T1 v \<or> v = T1 \<Longrightarrow> cmp C T2 v"
  by (cases C) auto

lemma better_equal_le: "n_better C T vals + n_equal T vals \<le> length vals"
proof -
  have "n_better C T vals + n_equal T vals = length (filter (\<lambda>v. cmp C T v \<or> v = T) vals)"
    unfolding n_better_def n_equal_def by (rule length_filter_disj) auto
  then show ?thesis by simp
qed

lemma selected_shape:
  assumes "length vals = n" "length ids = n" "selected C T q vals ids vals' ids'"
  defines "K \<equiv> kept C T (q - n_better C T vals) (zip vals ids)"
  shows "q \<le> n" and "length K = q" and "zip vals' ids' = K @ drop q (zip vals ids)"
    and "vals' = map fst K @ drop q vals" and "ids' = map snd K @ drop q ids"
proof -
  have mf: "map fst (zip vals ids) = vals" using assms(1,2) by simp
  from assms(3) have s: "n_better C T vals \<le> q" "q - n_better C T vals \<le> n_equal T vals"
    and v: "vals' = map fst K @ drop q vals" and i: "ids' = map snd K @ drop q ids"
    by (simp_all add: selected_def Let_def K_def)
  show "q \<le> n" using s better_equal_le [of C T vals] assms(1) by linarith
  show lK: "length K = q" using s by (simp add: K_def length_kept mf)
  show "vals' = map fst K @ drop q vals" by (rule v)
  show "ids' = map snd K @ drop q ids" by (rule i)
  show "zip vals' ids' = K @ drop q (zip vals ids)"
    unfolding v i by (simp add: zip_map_fst_snd drop_zip)
qed

lemma selected_props:
  assumes "length vals = n" "length ids = n" "selected C T q vals ids vals' ids'"
  shows "length vals' = n \<and> length ids' = n \<and>
     (\<forall>i<q. \<not> cmp C (vals' ! i) T) \<and>
     filter (\<lambda>p. cmp C T (fst p)) (take q (zip vals' ids')) =
       filter (\<lambda>p. cmp C T (fst p)) (zip vals ids) \<and>
     mset (take q (zip vals' ids')) \<subseteq># mset (zip vals ids) \<and>
     drop q vals' = drop q vals \<and> drop q ids' = drop q ids"
proof -
  define K where "K = kept C T (q - n_better C T vals) (zip vals ids)"
  note sh = selected_shape [OF assms, folded K_def]
  have l: "length vals' = n" "length ids' = n"
    using sh(1,2) assms(1,2) by (simp_all add: sh(4,5))
  have tk: "take q (zip vals' ids') = K"
    using sh(2) by (simp add: sh(3))
  have b: "\<not> cmp C (vals' ! i) T" if "i < q" for i
  proof -
    have "vals' ! i = fst (K ! i)" using that sh(2) by (simp add: sh(4) nth_append)
    moreover have "K ! i \<in> set K" using that sh(2) by simp
    then have "cmp C T (fst (K ! i)) \<or> fst (K ! i) = T"
      unfolding K_def by (rule kept_better_or_equal)
    ultimately show ?thesis by (auto dest: cmp_asym)
  qed
  have d: "drop q vals' = drop q vals" "drop q ids' = drop q ids"
    using sh(2) by (simp_all add: sh(4,5))
  show ?thesis
    using l b d by (simp add: tk) (simp add: K_def kept_keeps_better mset_kept)
qed

lemma kept_full_aux:
  "length (filter (\<lambda>p. fst p = t) xs) \<le> k \<Longrightarrow>
     kept C t k xs = filter (\<lambda>p. cmp C t (fst p) \<or> fst p = t) xs"
proof (induction xs arbitrary: k)
  case Nil
  then show ?case by simp
next
  case (Cons x xs)
  show ?case
  proof (cases "fst x = t")
    case True
    with Cons.prems have "0 < k" "length (filter (\<lambda>p. fst p = t) xs) \<le> k - 1" by simp_all
    with Cons.IH [of "k - 1"] True show ?thesis by simp
  next
    case False
    with Cons.prems have "length (filter (\<lambda>p. fst p = t) xs) \<le> k" by simp
    with Cons.IH [of k] False show ?thesis by simp
  qed
qed

lemma kept_full:
  "n_equal t (map fst xs) \<le> k \<Longrightarrow>
     kept C t k xs = filter (\<lambda>p. cmp C t (fst p) \<or> fst p = t) xs"
  by (rule kept_full_aux) (simp add: n_equal_def filter_map comp_def)

lemma kept_zero: "kept C t 0 xs = filter (\<lambda>p. cmp C t (fst p)) xs"
  by (induction xs) auto

lemma length_filter_mono:
  "(\<And>x. x \<in> set xs \<Longrightarrow> P x \<Longrightarrow> Q x) \<Longrightarrow> length (filter P xs) \<le> length (filter Q xs)"
  by (induction xs) auto

lemma filter_subset_eq:
  assumes "\<And>x. x \<in> set xs \<Longrightarrow> P x \<Longrightarrow> Q x" "length (filter P xs) = length (filter Q xs)"
  shows "filter P xs = filter Q xs"
  using assms
proof (induction xs)
  case Nil
  then show ?case by simp
next
  case (Cons x xs)
  have m: "length (filter P xs) \<le> length (filter Q xs)"
    using Cons.prems(1) by (intro length_filter_mono) auto
  show ?case
  proof (cases "P x")
    case True
    then have "Q x" using Cons.prems(1) by simp
    with True Cons show ?thesis by auto
  next
    case False
    show ?thesis
    proof (cases "Q x")
      case True
      with False Cons.prems(2) m show ?thesis by simp
    next
      case False
      with \<open>\<not> P x\<close> Cons show ?thesis by auto
    qed
  qed
qed

lemma kept_eq_if_better:
  assumes "cmp C T2 T1"
    and "n_better C T1 (map fst xs) + k1 = n_better C T2 (map fst xs) + k2"
    and "k1 \<le> n_equal T1 (map fst xs)"
  shows "kept C T1 k1 xs = kept C T2 k2 xs"
proof -
  let ?P = "\<lambda>p. cmp C T1 (fst p) \<or> fst p = T1"
  let ?Q = "\<lambda>p. cmp C T2 (fst p)"
  have sub: "?Q p" if "?P p" for p :: "u16 \<times> 'a"
    using cmp_better_trans [OF assms(1)] that by blast
  have "length (filter (\<lambda>p. cmp C T1 (fst p)) xs) + length (filter (\<lambda>p. fst p = T1) xs) =
      length (filter ?P xs)"
    by (rule length_filter_disj) auto
  then have lP: "length (filter ?P xs) = n_better C T1 (map fst xs) + n_equal T1 (map fst xs)"
    by (simp add: n_better_def n_equal_def filter_map comp_def)
  have lQ: "length (filter ?Q xs) = n_better C T2 (map fst xs)"
    by (simp add: n_better_def filter_map comp_def)
  have "length (filter ?P xs) \<le> length (filter ?Q xs)"
    by (rule length_filter_mono) (rule sub)
  with lP lQ assms(2,3) have e: "k1 = n_equal T1 (map fst xs)" "k2 = 0"
    "length (filter ?P xs) = length (filter ?Q xs)"
    by simp_all
  have "filter ?P xs = filter ?Q xs"
    by (rule filter_subset_eq [OF sub e(3)])
  then show ?thesis
    using e(1,2) by (simp add: kept_full kept_zero)
qed

lemma selected_unique:
  assumes "length vals = n" "length ids = n"
    and "selected C T1 q vals ids v1 i1" "selected C T2 q vals ids v2 i2"
  shows "v1 = v2 \<and> i1 = i2"
proof -
  let ?xs = "zip vals ids"
  let ?k1 = "q - n_better C T1 vals"
  let ?k2 = "q - n_better C T2 vals"
  have mf: "map fst ?xs = vals" using assms(1,2) by simp
  from assms(3) have s1: "n_better C T1 vals \<le> q" "?k1 \<le> n_equal T1 vals"
    by (simp_all add: selected_def Let_def)
  from assms(4) have s2: "n_better C T2 vals \<le> q" "?k2 \<le> n_equal T2 vals"
    by (simp_all add: selected_def Let_def)
  have "kept C T1 ?k1 ?xs = kept C T2 ?k2 ?xs"
  proof -
    consider "T1 = T2" | "cmp C T2 T1" | "cmp C T1 T2"
      using cmp_linear [of T1 T2 C] by blast
    then show ?thesis
    proof cases
      case 1
      then show ?thesis by simp
    next
      case 2
      show ?thesis
        by (rule kept_eq_if_better [OF 2]) (use s1 s2 in \<open>simp_all add: mf\<close>)
    next
      case 3
      show ?thesis
        by (rule kept_eq_if_better [OF 3, symmetric]) (use s1 s2 in \<open>simp_all add: mf\<close>)
    qed
  qed
  then show ?thesis
    using selected_shape(4,5) [OF assms(1,2,3)] selected_shape(4,5) [OF assms(1,2,4)] by simp
qed

lemma partition_fuzzy_Inr:
  assumes "length vals = n" "length ids = n" "0 < q_min" "q_min \<le> q_max" "q_max < n"
    and "partition_fuzzy C aligned vals ids n q_min q_max = Inr (T, q, vals', ids')"
  shows "selected C T q vals ids vals' ids'" and "q = 0 \<or> (q_min \<le> q \<and> q \<le> q_max)"
    and "aligned \<Longrightarrow> q_min \<le> q"
proof -
  have "selected C T q vals ids vals' ids' \<and> (q = 0 \<or> (q_min \<le> q \<and> q \<le> q_max)) \<and>
      (aligned \<longrightarrow> q_min \<le> q)"
  proof (cases aligned)
    case True
    from simd_partition_fuzzy_total [OF assms(1-5), of C] assms(6) True show ?thesis
      by (auto simp: partition_fuzzy_def)
  next
    case False
    with assms(6) have "partition_fuzzy_median3 C vals ids n q_min q_max = Inr (T, q, vals', ids')"
      by (simp add: partition_fuzzy_def)
    from partition_fuzzy_median3_Inr [OF assms(1-5) this] False show ?thesis by simp
  qed
  then show "selected C T q vals ids vals' ids'" and "q = 0 \<or> (q_min \<le> q \<and> q \<le> q_max)"
    and "aligned \<Longrightarrow> q_min \<le> q"
    by simp_all
qed


text \<open>
  The scalar bisection reaches a target when it starts with fewer than \<open>q_min\<close> scores at
  or before the lower end of its interval and more than \<open>q_max\<close> strictly before the
  upper end: every round removes the tried threshold from the scores left strictly
  inside the interval, and the sample finds one of them as long as the target is not
  reached.  With no score equal to a sentinel this holds at the start.
\<close>

lemma bisect_target:
  assumes "length vals = n" "0 < q_min" "q_min \<le> q_max"
  shows "bisect it C vals n q_min q_max tinf tsup thresh old = (t, n_lt, n_eq, q) \<Longrightarrow> q \<noteq> 0 \<Longrightarrow>
     n_lt = n_better C t vals \<and> n_eq = n_equal t vals \<and> n_lt \<le> q \<and> q \<le> n_lt + n_eq \<and>
     q_min \<le> q \<and> q \<le> q_max"
proof (induction it arbitrary: tinf tsup thresh old)
  case 0
  then show ?case by (cases old) simp
next
  case (Suc it)
  then show ?case
    using assms
    by (auto simp: Let_def count_lt_and_eq_eq split: if_splits)
qed

lemma exists_between:
  assumes "n_better C a vals + n_equal a vals < n_better C b vals"
  shows "\<exists>v\<in>set vals. cmp C v a \<and> cmp C b v"
proof (rule ccontr)
  assume "\<not> ?thesis"
  then have "cmp C a v \<or> v = a" if "v \<in> set vals" "cmp C b v" for v
    using that cmp_linear [of v a C] by auto
  then have "length (filter (cmp C b) vals) \<le> length (filter (\<lambda>v. cmp C a v \<or> v = a) vals)"
    by (intro length_filter_mono) auto
  moreover have "n_better C a vals + n_equal a vals = length (filter (\<lambda>v. cmp C a v \<or> v = a) vals)"
    unfolding n_better_def n_equal_def by (rule length_filter_disj) auto
  ultimately show False
    using assms by (simp add: n_better_def)
qed

lemma cmp_trans: "cmp C a b \<Longrightarrow> cmp C b c \<Longrightarrow> cmp C a c"
  by (cases C) auto

lemma bisect_reaches:
  assumes "length vals = n" "coprime n big_prime" "0 < q_min" "q_min \<le> q_max"
  shows "n_better C tinf vals + n_equal tinf vals < q_min \<Longrightarrow> q_max < n_better C tsup vals \<Longrightarrow>
     thresh \<in> set vals \<Longrightarrow> cmp C thresh tinf \<Longrightarrow> cmp C tsup thresh \<Longrightarrow>
     card {v \<in> set vals. cmp C v tinf \<and> cmp C tsup v} < it \<Longrightarrow>
     snd (snd (snd (bisect it C vals n q_min q_max tinf tsup thresh old))) \<noteq> 0"
proof (induction it arbitrary: tinf tsup thresh old)
  case 0
  then show ?case by simp
next
  case (Suc it)
  let ?S = "{v \<in> set vals. cmp C v tinf \<and> cmp C tsup v}"
  let ?lt = "n_better C thresh vals"
  let ?eq = "n_equal thresh vals"
  have cnt: "count_lt_and_eq C vals n thresh = (?lt, ?eq)"
    by (rule count_lt_and_eq_eq [OF assms(1)])
  have inS: "thresh \<in> ?S" using Suc.prems by simp
  consider (a) "?lt \<le> q_min" "q_min \<le> ?lt + ?eq"
    | (b) "?lt \<le> q_min" "?lt + ?eq < q_min"
    | (c) "q_min < ?lt" "?lt \<le> q_max"
    | (d) "q_min < ?lt" "q_max < ?lt"
    by linarith
  then show ?case
  proof cases
    case a
    then show ?thesis using assms(3) by (simp add: cnt)
  next
    case c
    then show ?thesis using assms(3) by (simp add: cnt)
  next
    case b
    define new where "new = sample_threshold_median3 C vals n thresh tsup"
    have "?lt + ?eq < n_better C tsup vals"
      using b Suc.prems(2) assms(4) by linarith
    from exists_between [OF this] obtain v where
      v: "v \<in> set vals" "cmp C v thresh" "cmp C tsup v" by blast
    from sample_inside [OF assms(1,2) v] have
      new: "new \<in> set vals" "cmp C new thresh" "cmp C tsup new"
      by (simp_all add: new_def)
    have ne: "new \<noteq> thresh" using new(2) by auto
    let ?S' = "{v \<in> set vals. cmp C v thresh \<and> cmp C tsup v}"
    have "?S' \<subseteq> ?S" using Suc.prems(4) by (auto intro: cmp_trans)
    moreover have "thresh \<notin> ?S'" by simp
    ultimately have "?S' \<subset> ?S" using inS by blast
    then have "card ?S' < card ?S" by (intro psubset_card_mono) auto
    then have fuel: "card ?S' < it" using Suc.prems(6) by linarith
    have "?lt + ?eq < q_min" using b by simp
    from Suc.IH [OF this Suc.prems(2) new fuel, of "(?lt, ?eq)"]
    show ?thesis
      using b ne by (simp add: cnt new_def [symmetric])
  next
    case d
    define new where "new = sample_threshold_median3 C vals n tinf thresh"
    have "n_better C tinf vals + n_equal tinf vals < ?lt"
      using d Suc.prems(1) by linarith
    from exists_between [OF this] obtain v where
      v: "v \<in> set vals" "cmp C v tinf" "cmp C thresh v" by blast
    from sample_inside [OF assms(1,2) v] have
      new: "new \<in> set vals" "cmp C new tinf" "cmp C thresh new"
      by (simp_all add: new_def)
    have ne: "new \<noteq> tinf" using new(2) by auto
    let ?S' = "{v \<in> set vals. cmp C v tinf \<and> cmp C thresh v}"
    have "?S' \<subseteq> ?S" using Suc.prems(5) by (auto intro: cmp_trans)
    moreover have "thresh \<notin> ?S'" by simp
    ultimately have "?S' \<subset> ?S" using inS by blast
    then have "card ?S' < card ?S" by (intro psubset_card_mono) auto
    then have fuel: "card ?S' < it" using Suc.prems(6) by linarith
    have "q_max < ?lt" using d by simp
    from Suc.IH [OF Suc.prems(1) this new fuel, of "(?lt, ?eq)"]
    show ?thesis
      using d ne by (simp add: cnt new_def [symmetric])
  qed
qed

lemma neutral_bounds:
  assumes "v \<noteq> 0" "v \<noteq> 0xffff"
  shows "cmp C v (neutral (Crev C))" "cmp C (neutral C) v"
proof -
  have "unat v < 2 ^ 16" using unsigned_less [of v, where 'a = nat] by simp
  then have "v \<le> 0xffff" by (simp add: word_le_nat_alt)
  then have "v < 0xffff" using assms(2) by simp
  moreover have "0 < v" using assms(1) by (simp add: word_gt_0)
  ultimately show "cmp C v (neutral (Crev C))" "cmp C (neutral C) v"
    by (cases C; simp)+
qed

lemma partition_fuzzy_median3_total:
  assumes "length vals = n" "length ids = n" "0 < q_min" "q_min \<le> q_max" "q_max < n"
    and "3 \<le> n" "coprime n big_prime" "card (set vals) < 200"
    and ns: "\<And>v. v \<in> set vals \<Longrightarrow> v \<noteq> 0 \<and> v \<noteq> 0xffff"
  shows "\<exists>T q vals' ids'.
     partition_fuzzy_median3 C vals ids n q_min q_max = Inr (T, q, vals', ids') \<and> q \<noteq> 0"
proof -
  define thresh0 where "thresh0 = median3 (vals ! 0) (vals ! (n div 2)) (vals ! (n - 1))"
  have "vals ! 0 \<in> set vals" "vals ! (n div 2) \<in> set vals" "vals ! (n - 1) \<in> set vals"
    using assms(1,6) by (auto intro!: nth_mem)
  then have t0: "thresh0 \<in> set vals"
    using median3_in [of "vals ! 0" "vals ! (n div 2)" "vals ! (n - 1)"] by (auto simp: thresh0_def)
  have none: "\<not> cmp C (neutral (Crev C)) v" "v \<noteq> neutral (Crev C)" if "v \<in> set vals" for v
    using neutral_bounds(1) [of v C] ns [OF that] by (auto dest: cmp_asym)
  have i1: "n_better C (neutral (Crev C)) vals + n_equal (neutral (Crev C)) vals < q_min"
    using none assms(3) by (simp add: n_better_def n_equal_def)
  have "filter (cmp C (neutral C)) vals = vals"
    using neutral_bounds(2) ns by (simp add: filter_id_conv)
  then have i2: "q_max < n_better C (neutral C) vals"
    using assms(1,5) by (simp add: n_better_def)
  have i3: "cmp C thresh0 (neutral (Crev C))" "cmp C (neutral C) thresh0"
    using neutral_bounds [of thresh0 C] ns [OF t0] by simp_all
  have "card {v \<in> set vals. cmp C v (neutral (Crev C)) \<and> cmp C (neutral C) v} \<le> card (set vals)"
    by (intro card_mono) auto
  then have fuel: "card {v \<in> set vals. cmp C v (neutral (Crev C)) \<and> cmp C (neutral C) v} < 200"
    using assms(8) by linarith
  obtain thresh1 n_lt n_eq q1 where
    b: "bisect 200 C vals n q_min q_max (neutral (Crev C)) (neutral C) thresh0 (0, 0) =
          (thresh1, n_lt, n_eq, q1)"
    by (metis prod_cases4)
  from bisect_reaches [OF assms(1,7,3,4) i1 i2 t0 i3 fuel, of "(0, 0)"]
  have q1: "q1 \<noteq> 0" by (simp add: b)
  from bisect_target [OF assms(1,3,4) b q1] have
    r: "n_lt = n_better C thresh1 vals" "n_eq = n_equal thresh1 vals" "n_lt \<le> q1"
      "q1 \<le> n_lt + n_eq"
    by simp_all
  have k: "q1 - n_lt \<le> n_equal thresh1 vals" using r by linarith
  from compress_array_ok [OF assms(1,2) k, of C] obtain vals' ids' where
    c: "compress_array C vals ids n thresh1 (q1 - n_lt) =
          Inr (vals', ids', n_better C thresh1 vals + (q1 - n_lt))"
    by blast
  have wp: "n_better C thresh1 vals + (q1 - n_lt) = q1" using r by simp
  have nn: "nat (int q1 - int n_lt) = q1 - n_lt" by simp
  have "partition_fuzzy_median3 C vals ids n q_min q_max = Inr (thresh1, q1, vals', ids')"
    using assms(3,5,6) r(3,4) c
    unfolding partition_fuzzy_median3_def Let_def b [unfolded thresh0_def] prod.case
    by (simp add: wp nn)
  then show ?thesis using q1 by blast
qed

lemma filter_take_prefix:
  assumes "\<And>x. x \<in> set (take q xs) \<Longrightarrow> Q x" "length (filter Q xs) = q" "q \<le> length xs"
  shows "filter Q xs = take q xs"
proof -
  have f: "filter Q xs = filter Q (take q xs) @ filter Q (drop q xs)"
    by (metis append_take_drop_id filter_append)
  have t: "filter Q (take q xs) = take q xs"
    using assms(1) by (simp add: filter_id_conv)
  have "length (filter Q xs) = q + length (filter Q (drop q xs))"
    using assms(3) by (simp add: f t)
  with assms(2) have "filter Q (drop q xs) = []" by simp
  then show ?thesis by (simp add: f t)
qed

lemma cmp_chain:
  "\<not> cmp C u T1 \<Longrightarrow> cmp C w T1 \<Longrightarrow> cmp C T2 w \<or> w = T2 \<Longrightarrow> cmp C T2 u"
  by (cases C) auto

lemma second_selection_keeps_threshold:
  assumes "length vals1 = n" "length ids1 = n" "q \<le> n"
    and first: "\<And>j. j < q \<Longrightarrow> \<not> cmp C (vals1 ! j) T1"
    and second: "selected C T2 q vals1 ids1 vals2 ids2"
    and "i < q"
  shows "\<not> cmp C (vals2 ! i) T1"
proof
  assume bad: "cmp C (vals2 ! i) T1"
  let ?xs = "zip vals1 ids1"
  let ?Q = "\<lambda>p :: u16 \<times> 'a. cmp C T2 (fst p)"
  define K where "K = kept C T2 (q - n_better C T2 vals1) ?xs"
  note sh = selected_shape [OF assms(1,2) second, folded K_def]
  have mf: "map fst ?xs = vals1" using assms(1,2) by simp
  have w: "vals2 ! i = fst (K ! i)" using \<open>i < q\<close> sh(2) by (simp add: sh(4) nth_append)
  have "K ! i \<in> set K" using \<open>i < q\<close> sh(2) by simp
  then have wb: "cmp C T2 (fst (K ! i)) \<or> fst (K ! i) = T2"
    unfolding K_def by (rule kept_better_or_equal)
  have pre: "?Q p" if "p \<in> set (take q ?xs)" for p
  proof -
    from that obtain j where j: "j < q" "p = ?xs ! j"
      using assms(1,2,3) by (auto simp: in_set_conv_nth)
    then have "fst p = vals1 ! j" using assms(1,2,3) by simp
    with cmp_chain [OF first [OF j(1)] bad [unfolded w] wb] show ?thesis by simp
  qed
  have "n_better C T2 (map fst ?xs) = length (filter ?Q ?xs)"
    by (simp add: n_better_def filter_map comp_def)
  then have nbx: "n_better C T2 vals1 = length (filter ?Q ?xs)"
    by (simp only: mf)
  have "length (filter ?Q (take q ?xs)) \<le> length (filter ?Q ?xs)"
    by (metis append_take_drop_id filter_append length_append le_add1)
  moreover have "filter ?Q (take q ?xs) = take q ?xs"
    using pre by (simp add: filter_id_conv)
  ultimately have ge: "q \<le> n_better C T2 vals1"
    using assms(1,2,3) by (simp add: nbx)
  from second have le: "n_better C T2 vals1 \<le> q"
    by (simp add: selected_def Let_def)
  from ge le have nb: "n_better C T2 vals1 = q" by simp
  then have "K = filter ?Q ?xs" by (simp add: K_def kept_zero)
  moreover have "length (filter ?Q ?xs) = q"
    using nb by (simp add: nbx)
  then have "filter ?Q ?xs = take q ?xs"
    using pre assms(1,2,3) by (intro filter_take_prefix) simp_all
  ultimately have "K ! i = ?xs ! i" using \<open>i < q\<close> by simp
  then have "vals2 ! i = vals1 ! i"
    using w \<open>i < q\<close> assms(1,2,3) by simp
  with first [OF \<open>i < q\<close>] bad show False by simp
qed

lemma compress_array_error:
  "compress_array C vals ids n t k = Inl e \<Longrightarrow> e = AssertionFailure"
  by (auto simp: compress_array_def split: prod.splits if_splits)

lemma simd_compress_array_error:
  "simd_compress_array C vals ids n t k = Inl e \<Longrightarrow> e = AssertionFailure"
  by (auto simp: simd_compress_array_def Let_def split: prod.splits if_splits)

lemma partition_fuzzy_median3_error:
  assumes "partition_fuzzy_median3 C vals ids n q_min q_max = Inl FaissException"
  shows "0 < q_min \<and> q_max < n \<and> n < 3"
proof (rule ccontr)
  assume c: "\<not> (0 < q_min \<and> q_max < n \<and> n < 3)"
  obtain thresh1 n_lt n_eq q1 where
    b: "bisect 200 C vals n q_min q_max (neutral (Crev C)) (neutral C)
          (median3 (vals ! 0) (vals ! (n div 2)) (vals ! (n - 1))) (0, 0) =
          (thresh1, n_lt, n_eq, q1)"
    by (metis prod_cases4)
  from assms c show False
    unfolding partition_fuzzy_median3_def Let_def b prod.case
    by (auto split: if_splits sum.splits dest: compress_array_error)
qed

lemma simd_partition_fuzzy_error:
  "simd_partition_fuzzy C vals ids n q_min q_max \<noteq> Inl FaissException"
proof
  assume a: "simd_partition_fuzzy C vals ids n q_min q_max = Inl FaissException"
  obtain lo hi where mm: "find_minimax vals n = (lo, hi)"
    by (cases "find_minimax vals n") auto
  obtain s0 s1 thresh1 n_lt n_eq q1 where
    b: "simd_bisect 200 C vals n q_min q_max (unat lo) (unat hi + 1) (0, 0, 0) =
          (s0, s1, thresh1, n_lt, n_eq, q1)"
    by (metis prod_cases4)
  from a show False
    unfolding simd_partition_fuzzy_def mm prod.case simd_partition_fuzzy_with_bounds_def Let_def b
    by (auto split: if_splits sum.splits dest: simd_compress_array_error)
qed

section \<open>Running the routines on concrete arrays\<close>


lemmas bisect_num = bisect.simps(2) [of "pred_numeral k", folded numeral_eq_Suc] for k

lemmas scalar_eval = partition_fuzzy_def partition_fuzzy_median3_def bisect_num
  count_lt_and_eq_eq compress_array_eq n_better_def n_equal_def sample_threshold_median3_def
  sample_loop_eq big_prime_def median3_def upt_0_numeral

lemma set1_lanes: "set1 x = [x, x, x, x, x, x, x, x, x, x, x, x, x, x, x, x]"
  by (simp add: set1_def numeral_eq_Suc)

lemma upt_1_16: "[Suc 0..<16] = [1, 2, 3, 4, 5, 6, 7, 8, 9, 10, 11, 12, 13, 14, 15]"
proof -
  have "[Suc 0..<Suc 15] = map Suc [0..<15]"
    by (simp only: map_Suc_upt)
  then show ?thesis
    by (simp add: upt_0_numeral)
qed

lemmas simd_bisect_num = simd_bisect.simps(2) [of "pred_numeral k", folded numeral_eq_Suc] for k

lemma tab32_start: "fold (\<lambda>i (smin, smax). (min smin ((set1 0xffff @ set1 0) ! i), max smax ((set1 0xffff @ set1 0) ! (i + 16))))
              [Suc 0..<16] ((set1 0xffff @ set1 0) ! 0, (set1 0xffff @ set1 0) ! 16) = (0xffff, 0 :: u16)"
  by (simp add: set1_lanes upt_1_16)

lemma find_minimax_short:
  "n < 16 \<Longrightarrow> find_minimax vals n =
     fold (\<lambda>i (smin, smax). (min smin (vals ! i), max smax (vals ! i))) [0..<n] (0xffff, 0)"
  unfolding find_minimax_def Let_def by (simp add: tab32_start)

lemmas simd_eval = partition_fuzzy_def simd_partition_fuzzy_def
  simd_partition_fuzzy_with_bounds_def simd_bisect_num simd_count_lt_and_eq_eq
  simd_compress_array_eq compress_array_eq n_better_def n_equal_def find_minimax_short
  upt_0_numeral

lemma set1_8_lanes: "set1_8 x = [x, x, x, x, x, x, x, x, x, x, x, x, x, x, x, x,
    x, x, x, x, x, x, x, x, x, x, x, x, x, x, x, x]"
  by (simp add: set1_8_def numeral_eq_Suc)

lemmas histogram_eval = simd_histogram_8_def histogram_8_def
  histogram_8_loop.simps accu2_triples.simps compute_accu2_def accu2_step_def
  accu4to8_def accu8to16_def shifts_def
  and16_def or16_def add16_def sub16_def shl16_def shr16_def srai_epi16_def add8_def
  set1_8_lanes hadd_half_def hadd_epi16_def lookup_2_lanes_def set1_lanes load_def to_bytes_def
  shifted_tail_step_def upt_0_numeral Let_def

section \<open>Properties of the histogram routines\<close>

text \<open>
  The vector loops cannot fail on a whole number of blocks, and the scalar tail of the
  unbounded routines can only fail by a store outside the bucket array.
\<close>

lemma unbounded_tail_error: "unbounded_tail data is hist = Inl e \<Longrightarrow> e = OutOfBounds"
  by (induction "is" arbitrary: hist) (auto simp: hist_incr_def split: if_splits sum.splits)

lemma histogram_8_ok: "\<exists>a. histogram_8 data pp (16 * k) = Inr a"
  by (simp add: histogram_8_def Let_def split: prod.splits)

lemma histogram_16_ok: "\<exists>a. histogram_16 data pp (16 * k) = Inr a"
  by (simp add: histogram_16_def Let_def split: prod.splits)

section \<open>Claims\<close>

text \<open>
  Claim C1 (partition invariant), as the code has it.  The claim asks for every score
  at an index \<open>\<ge> q\<close> to be not strictly better than the threshold and for the multiset
  of (score, identifier) pairs of the whole arrays to be preserved.  The partitioners
  compress: they copy the selected pairs to the front and leave the rest of the arrays
  as the input had them, so neither holds (see the counterexample below).

  Amended, for \<open>0 < q_min \<le> q_max < n\<close> and arrays of length \<open>n\<close>: the call returns a
  count \<open>q\<close> with \<open>q_min \<le> q \<le> q_max\<close> and a threshold \<open>T\<close> such that every score at an
  index \<open>< q\<close> is better than or equal to \<open>T\<close>, the pairs strictly better than \<open>T\<close> are
  all among the first \<open>q\<close>, in input order, the first \<open>q\<close> pairs are a sub-multiset of the
  input pairs (identifiers stay with their scores), and the positions from \<open>q\<close> on hold
  what the input held there.  The return is stated for the vector path on every input,
  and for the scalar path when \<open>n \<ge> 3\<close>, no score equals a sentinel (\<open>0\<close> or \<open>0xffff\<close>),
  the array holds fewer than \<open>200\<close> distinct scores (the bisection runs 200 rounds at
  most) and \<open>n\<close> has no common factor with the sampling stride \<open>6700417\<close>; the rest is
  stated for every call that returns, on the scalar path with a count other than \<open>0\<close>.
\<close>

theorem C1_partition_fuzzy_outcome:
  assumes "length vals = n" "length ids = n" "0 < q_min" "q_min \<le> q_max" "q_max < n"
  shows "(aligned \<or> (3 \<le> n \<and> coprime n big_prime \<and> card (set vals) < 200 \<and>
            (\<forall>v\<in>set vals. v \<noteq> 0 \<and> v \<noteq> 0xffff)) \<longrightarrow>
       (\<exists>T q vals' ids'. partition_fuzzy C aligned vals ids n q_min q_max = Inr (T, q, vals', ids') \<and>
          q_min \<le> q \<and> q \<le> q_max)) \<and>
     (\<forall>T q vals' ids'.
        partition_fuzzy C aligned vals ids n q_min q_max = Inr (T, q, vals', ids') \<and>
        (aligned \<or> q \<noteq> 0) \<longrightarrow>
          q_min \<le> q \<and> q \<le> q_max \<and>
          length vals' = n \<and> length ids' = n \<and>
          (\<forall>i<q. \<not> cmp C (vals' ! i) T) \<and>
          filter (\<lambda>p. cmp C T (fst p)) (take q (zip vals' ids')) =
            filter (\<lambda>p. cmp C T (fst p)) (zip vals ids) \<and>
          mset (take q (zip vals' ids')) \<subseteq># mset (zip vals ids) \<and>
          drop q vals' = drop q vals \<and> drop q ids' = drop q ids)"
proof -
  have post: "q_min \<le> q \<and> q \<le> q_max \<and>
          length vals' = n \<and> length ids' = n \<and>
          (\<forall>i<q. \<not> cmp C (vals' ! i) T) \<and>
          filter (\<lambda>p. cmp C T (fst p)) (take q (zip vals' ids')) =
            filter (\<lambda>p. cmp C T (fst p)) (zip vals ids) \<and>
          mset (take q (zip vals' ids')) \<subseteq># mset (zip vals ids) \<and>
          drop q vals' = drop q vals \<and> drop q ids' = drop q ids"
    if r: "partition_fuzzy C aligned vals ids n q_min q_max = Inr (T, q, vals', ids')"
      and nz: "aligned \<or> q \<noteq> 0"
    for T q vals' ids'
  proof -
    note sel = partition_fuzzy_Inr(1) [OF assms r] and rng = partition_fuzzy_Inr(2) [OF assms r]
      and al = partition_fuzzy_Inr(3) [OF assms r]
    have "q_min \<le> q" "q \<le> q_max" using rng al nz assms(3) by auto
    with selected_props [OF assms(1,2) sel] show ?thesis by simp
  qed
  have total: "\<exists>T q vals' ids'.
      partition_fuzzy C aligned vals ids n q_min q_max = Inr (T, q, vals', ids') \<and>
      q_min \<le> q \<and> q \<le> q_max"
    if h: "aligned \<or> (3 \<le> n \<and> coprime n big_prime \<and> card (set vals) < 200 \<and>
            (\<forall>v\<in>set vals. v \<noteq> 0 \<and> v \<noteq> 0xffff))"
  proof (cases aligned)
    case True
    then show ?thesis
      using simd_partition_fuzzy_total [OF assms, of C]
      by (auto simp: partition_fuzzy_def)
  next
    case False
    with h have s: "3 \<le> n" "coprime n big_prime" "card (set vals) < 200"
      "\<And>v. v \<in> set vals \<Longrightarrow> v \<noteq> 0 \<and> v \<noteq> 0xffff"
      by auto
    from partition_fuzzy_median3_total [OF assms s, of C] obtain T q vals' ids' where
      r: "partition_fuzzy_median3 C vals ids n q_min q_max = Inr (T, q, vals', ids')" "q \<noteq> 0"
      by blast
    then have r': "partition_fuzzy C aligned vals ids n q_min q_max = Inr (T, q, vals', ids')"
      using False by (simp add: partition_fuzzy_def)
    from post [OF r'] r(2) r' show ?thesis by blast
  qed
  show ?thesis
    using total post by blast
qed

text \<open>The theorem at the scenario of the spec, on the scalar path.\<close>

theorem C1_partition_fuzzy_outcome_witness:
  "partition_fuzzy CMax False [5, 3, 3, 8, 1, 9, 3] [0, 1, 2, 3, 4, 5, 6 :: int] 7 3 3
     = Inr (3, 3, [3, 3, 1, 8, 1, 9, 3], [1, 2, 4, 3, 4, 5, 6]) \<and>
   coprime (7 :: nat) big_prime \<and> card (set [5, 3, 3, 8, 1, 9, 3 :: u16]) < 200 \<and>
   (3 :: nat) \<le> 3 \<and> length [3, 3, 1, 8, 1, 9, 3 :: u16] = 7 \<and>
   drop 3 [3, 3, 1, 8, 1, 9, 3 :: u16] = drop 3 [5, 3, 3, 8, 1, 9, 3]"
proof -
  have r: "partition_fuzzy CMax False [5, 3, 3, 8, 1, 9, 3] [0, 1, 2, 3, 4, 5, 6 :: int] 7 3 3
     = Inr (3, 3, [3, 3, 1, 8, 1, 9, 3], [1, 2, 4, 3, 4, 5, 6])"
    by (simp add: scalar_eval)
  have h: "length [5, 3, 3, 8, 1, 9, 3 :: u16] = 7" "length [0, 1, 2, 3, 4, 5, 6 :: int] = 7"
    "(0 :: nat) < 3" "(3 :: nat) \<le> 3" "(3 :: nat) < 7"
    by simp_all
  have c: "coprime (7 :: nat) big_prime"
    by (simp add: big_prime_def coprime_iff_gcd_eq_1 gcd_non_0_nat)
  have k: "card (set [5, 3, 3, 8, 1, 9, 3 :: u16]) < 200"
    using card_length [of "[5, 3, 3, 8, 1, 9, 3 :: u16]"] by simp
  from C1_partition_fuzzy_outcome [OF h, of False CMax] r c k show ?thesis
    by simp
qed

text \<open>
  Claim C1 as stated fails on the scenario of the spec: after the call the score at
  index \<open>4 \<ge> q\<close> is \<open>1\<close>, strictly better than the threshold \<open>3\<close>, and the pair \<open>(5, 0)\<close>
  of the input is gone.
\<close>

theorem C1_counterexample:
  "partition_fuzzy CMax False [5, 3, 3, 8, 1, 9, 3] [0, 1, 2, 3, 4, 5, 6 :: int] 7 3 3
     = Inr (3, 3, [3, 3, 1, 8, 1, 9, 3], [1, 2, 4, 3, 4, 5, 6]) \<and>
   cmp CMax 3 ([3, 3, 1, 8, 1, 9, 3] ! 4) \<and>
   mset (zip [3, 3, 1, 8, 1, 9, 3 :: u16] [1, 2, 4, 3, 4, 5, 6 :: int])
     \<noteq> mset (zip [5, 3, 3, 8, 1, 9, 3] [0, 1, 2, 3, 4, 5, 6])"
proof -
  have "count (mset (zip [3, 3, 1, 8, 1, 9, 3 :: u16] [1, 2, 4, 3, 4, 5, 6 :: int])) (5, 0) \<noteq>
      count (mset (zip [5, 3, 3, 8, 1, 9, 3 :: u16] [0, 1, 2, 3, 4, 5, 6 :: int])) (5, 0)"
    by simp
  then have "mset (zip [3, 3, 1, 8, 1, 9, 3 :: u16] [1, 2, 4, 3, 4, 5, 6 :: int])
     \<noteq> mset (zip [5, 3, 3, 8, 1, 9, 3] [0, 1, 2, 3, 4, 5, 6])"
    by metis
  then show ?thesis
    by (simp add: scalar_eval)
qed

text \<open>
  Claim C2 (trivial boundaries), at the input where the code departs from it.  The claim
  says that a call with \<open>q_min = 0\<close> reports the achieved count \<open>0\<close>.  On the scalar path
  with the select-largest policy the routine stores \<^verbatim>\<open>C::Crev::neutral()\<close>, which is
  \<open>65535\<close>, through \<^verbatim>\<open>q_out\<close> and returns the threshold \<open>0\<close>; the vector path stores \<open>0\<close>.
\<close>

theorem C2_scalar_q_min_zero_reports_sentinel:
  "partition_fuzzy CMin False [1, 2, 3] [10, 11, 12 :: int] 3 0 2
     = Inr (0, 65535, [1, 2, 3], [10, 11, 12])"
  by (simp add: scalar_eval)

text \<open>
  Claim C3 (concrete scenario), as the code has it.  On scores \<open>[5, 3, 3, 8, 1, 9, 3]\<close>
  with \<open>q_min = q_max = 3\<close> and select-smallest, both paths achieve \<open>q = 3\<close> with
  threshold \<open>3\<close>, and the first three positions hold the multiset \<open>{1, 3, 3}\<close> (as
  \<open>3, 3, 1\<close>).  The positions \<open>3..6\<close> hold what the input held there, \<open>8, 1, 9, 3\<close>: the
  compaction writes the front only, so the suffix is not the complement \<open>{5, 8, 9, 3}\<close>
  of the prefix.
\<close>

theorem C3_scenario:
  "partition_fuzzy CMax False [5, 3, 3, 8, 1, 9, 3] [0, 1, 2, 3, 4, 5, 6 :: int] 7 3 3
     = Inr (3, 3, [3, 3, 1, 8, 1, 9, 3], [1, 2, 4, 3, 4, 5, 6]) \<and>
   partition_fuzzy CMax True [5, 3, 3, 8, 1, 9, 3] [0, 1, 2, 3, 4, 5, 6 :: int] 7 3 3
     = Inr (3, 3, [3, 3, 1, 8, 1, 9, 3], [1, 2, 4, 3, 4, 5, 6]) \<and>
   mset (take 3 [3, 3, 1, 8, 1, 9, 3 :: u16]) = {#1, 3, 3#} \<and>
   drop 3 [3, 3, 1, 8, 1, 9, 3 :: u16] = drop 3 [5, 3, 3, 8, 1, 9, 3] \<and>
   mset (drop 3 [3, 3, 1, 8, 1, 9, 3 :: u16]) = {#8, 1, 9, 3#}"
proof -
  have "partition_fuzzy CMax False [5, 3, 3, 8, 1, 9, 3] [0, 1, 2, 3, 4, 5, 6 :: int] 7 3 3
     = Inr (3, 3, [3, 3, 1, 8, 1, 9, 3], [1, 2, 4, 3, 4, 5, 6])"
    by (simp add: scalar_eval)
  moreover have "partition_fuzzy CMax True [5, 3, 3, 8, 1, 9, 3] [0, 1, 2, 3, 4, 5, 6 :: int] 7 3 3
     = Inr (3, 3, [3, 3, 1, 8, 1, 9, 3], [1, 2, 4, 3, 4, 5, 6])"
    by (simp add: simd_eval)
  ultimately show ?thesis by simp
qed

text \<open>
  Claim C3 as stated fails: the suffix of the result is not the multiset
  \<open>{5, 8, 9, 3}\<close>; the score \<open>5\<close> is overwritten and \<open>1\<close> stays behind.
\<close>

theorem C3_counterexample:
  "partition_fuzzy CMax False [5, 3, 3, 8, 1, 9, 3] [0, 1, 2, 3, 4, 5, 6 :: int] 7 3 3
     = Inr (3, 3, [3, 3, 1, 8, 1, 9, 3], [1, 2, 4, 3, 4, 5, 6]) \<and>
   mset (drop 3 [3, 3, 1, 8, 1, 9, 3 :: u16]) \<noteq> {#5, 8, 9, 3#}"
proof -
  have "count (mset (drop 3 [3, 3, 1, 8, 1, 9, 3 :: u16])) 5 \<noteq> count {#5, 8, 9, 3 :: u16#} 5"
    by simp
  then have "mset (drop 3 [3, 3, 1, 8, 1, 9, 3 :: u16]) \<noteq> {#5, 8, 9, 3#}"
    by metis
  then show ?thesis
    by (simp add: scalar_eval)
qed

text \<open>
  Claim C4 (scalar/vector equivalence), as the code has it.  The two paths search
  differently: the scalar path tries scores of the array, the vector path midpoints of
  the value range, so their thresholds differ in general.  Amended, for
  \<open>0 < q_min \<le> q_max < n\<close>: whenever the scalar path returns with a count other than \<open>0\<close>,
  the vector path returns too, both counts lie in \<open>[q_min, q_max]\<close>, and when the counts
  are equal (as they are when \<open>q_min = q_max\<close>) the two paths leave identical arrays.
\<close>

theorem C4_scalar_vector_agreement:
  assumes "length vals = n" "length ids = n" "0 < q_min" "q_min \<le> q_max" "q_max < n"
    and "partition_fuzzy_median3 C vals ids n q_min q_max = Inr (Ts, qs, vs, is)" "qs \<noteq> 0"
  shows "\<exists>Tv qv vv iv.
     simd_partition_fuzzy C vals ids n q_min q_max = Inr (Tv, qv, vv, iv) \<and>
     q_min \<le> qs \<and> qs \<le> q_max \<and> q_min \<le> qv \<and> qv \<le> q_max \<and>
     (qv = qs \<longrightarrow> vv = vs \<and> iv = is)"
proof -
  from partition_fuzzy_median3_Inr [OF assms(1-6)] assms(7)
  have s: "selected C Ts qs vals ids vs is" "q_min \<le> qs" "qs \<le> q_max"
    by auto
  from simd_partition_fuzzy_total [OF assms(1-5), of C] obtain Tv qv vv iv where
    v: "simd_partition_fuzzy C vals ids n q_min q_max = Inr (Tv, qv, vv, iv)"
      "q_min \<le> qv" "qv \<le> q_max" "selected C Tv qv vals ids vv iv"
    by blast
  have "vv = vs \<and> iv = is" if "qv = qs"
    using selected_unique [OF assms(1,2) v(4) [unfolded that] s(1)] .
  with s v show ?thesis by simp
qed

text \<open>
  The theorem on scores \<open>[0, 10, 100]\<close> with \<open>q_min = q_max = 1\<close>.
\<close>

theorem C4_scalar_vector_agreement_witness:
  "partition_fuzzy_median3 CMax [0, 10, 100] [0, 1, 2 :: int] 3 1 1
     = Inr (10, 1, [0, 10, 100], [0, 1, 2]) \<and>
   simd_partition_fuzzy CMax [0, 10, 100] [0, 1, 2 :: int] 3 1 1
     = Inr (6, 1, [0, 10, 100], [0, 1, 2])"
proof -
  have r: "partition_fuzzy_median3 CMax [0, 10, 100] [0, 1, 2 :: int] 3 1 1
     = Inr (10, 1, [0, 10, 100], [0, 1, 2])"
    by (simp add: scalar_eval)
  have h: "length [0, 10, 100 :: u16] = 3" "length [0, 1, 2 :: int] = 3"
    "(0 :: nat) < 1" "(1 :: nat) \<le> 1" "(1 :: nat) < 3" "(1 :: nat) \<noteq> 0"
    by simp_all
  have e: "simd_partition_fuzzy CMax [0, 10, 100] [0, 1, 2 :: int] 3 1 1
     = Inr (6, 1, [0, 10, 100], [0, 1, 2])"
    by (simp add: simd_eval)
  from C4_scalar_vector_agreement [OF h(1-5) r h(6)] r e show ?thesis
    by simp
qed

text \<open>
  Claim C4 as stated fails on that input: the vector path returns the threshold \<open>6\<close>,
  the scalar path \<open>10\<close>.
\<close>

theorem C4_counterexample:
  "simd_partition_fuzzy CMax [0, 10, 100] [0, 1, 2 :: int] 3 1 1
     = Inr (6, 1, [0, 10, 100], [0, 1, 2]) \<and>
   partition_fuzzy_median3 CMax [0, 10, 100] [0, 1, 2 :: int] 3 1 1
     = Inr (10, 1, [0, 10, 100], [0, 1, 2]) \<and>
   (6 :: u16) \<noteq> 10"
proof -
  have "simd_partition_fuzzy CMax [0, 10, 100] [0, 1, 2 :: int] 3 1 1
     = Inr (6, 1, [0, 10, 100], [0, 1, 2])"
    by (simp add: simd_eval)
  moreover have "partition_fuzzy_median3 CMax [0, 10, 100] [0, 1, 2 :: int] 3 1 1
     = Inr (10, 1, [0, 10, 100], [0, 1, 2])"
    by (simp add: scalar_eval)
  ultimately show ?thesis by simp
qed

text \<open>
  Claim C5 (unsupported histogram shift).  The routines have no mode argument: a
  negative \<^verbatim>\<open>shift\<close> selects the unbounded mode, which ignores \<^verbatim>\<open>min\<close> and \<^verbatim>\<open>shift\<close>, and
  a \<^verbatim>\<open>shift\<close> of \<open>0\<close> or more the shifted mode.  \<^verbatim>\<open>simd_histogram_8\<close> and
  \<^verbatim>\<open>simd_histogram_16\<close> throw the configuration error exactly when the shifted mode is
  asked for with a shift above \<open>8\<close>, and with a shift in \<open>0..8\<close> they return a histogram.
\<close>

theorem C5_histogram_shift_error:
  "(simd_histogram_8 data n m shift = Inl FaissException \<longleftrightarrow> 8 < shift) \<and>
   (simd_histogram_16 data n m shift = Inl FaissException \<longleftrightarrow> 8 < shift) \<and>
   (0 \<le> shift \<and> shift \<le> 8 \<longrightarrow>
      (\<exists>h. simd_histogram_8 data n m shift = Inr h) \<and>
      (\<exists>h. simd_histogram_16 data n m shift = Inr h))"
proof -
  obtain a8 where a8: "histogram_8 data PreprocNOP (16 * (n div 16)) = Inr a8"
    using histogram_8_ok by blast
  obtain a16 where a16: "histogram_16 data PreprocNOP (16 * (n div 16)) = Inr a16"
    using histogram_16_ok by blast
  obtain b8 where b8: "histogram_8 data (PreprocMinShift (nat shift) m) (16 * (n div 16)) = Inr b8"
    using histogram_8_ok by blast
  obtain b16 where b16: "histogram_16 data (PreprocMinShift (nat shift) m) (16 * (n div 16)) = Inr b16"
    using histogram_16_ok by blast
  have u8: "simd_histogram_8_unbounded data n \<noteq> Inl FaissException"
    by (auto simp: simd_histogram_8_unbounded_def a8 dest: unbounded_tail_error)
  have u16: "simd_histogram_16_unbounded data n \<noteq> Inl FaissException"
    by (auto simp: simd_histogram_16_unbounded_def a16 dest: unbounded_tail_error)
  show ?thesis
    using u8 u16 by (auto simp: simd_histogram_8_def simd_histogram_16_def b8 b16)
qed

text \<open>
  The theorem on seven scores, with the shifts \<open>9\<close> and \<open>0\<close>.
\<close>

theorem C5_histogram_shift_error_witness:
  "simd_histogram_8 [0, 1, 1, 2, 7, 7, 7] 7 0 9 = Inl FaissException \<and>
   simd_histogram_16 [0, 1, 1, 2, 7, 7, 7] 7 0 9 = Inl FaissException \<and>
   (\<exists>h. simd_histogram_8 [0, 1, 1, 2, 7, 7, 7] 7 0 0 = Inr h)"
  using C5_histogram_shift_error [of "[0, 1, 1, 2, 7, 7, 7]" 7 0 9]
    C5_histogram_shift_error [of "[0, 1, 1, 2, 7, 7, 7]" 7 0 0]
  by simp

text \<open>
  Claim C6 (histogram total), at an input where the code departs from it.  Take the
  shifted mode with \<^verbatim>\<open>min = 0\<close>, \<^verbatim>\<open>shift = 0\<close> and 8 bins.  A score of \<open>16\<close> maps to the
  bucket \<open>16\<close>, outside \<open>[0, 8)\<close>, so on sixteen such scores the claim asks for the
  bucket counts to sum to \<open>0\<close>.  The vector loop of \<^verbatim>\<open>simd_histogram_8\<close> counts all
  sixteen in bucket \<open>0\<close>: the index byte \<^verbatim>\<open>0x10\<close> has its top bit clear, and the table
  look-up reads the entry of its low four bits, \<open>0\<close>.  The scalar tail of the same
  routine, which serves fifteen such scores, clips them (\<^verbatim>\<open>if (v < 8) hist[v]++\<close>) and
  counts none.
\<close>

theorem C6_histogram_8_counts_clipped_scores:
  "simd_histogram_8 [16, 16, 16, 16, 16, 16, 16, 16, 16, 16, 16, 16, 16, 16, 16, 16] 16 0 0
     = Inr [16, 0, 0, 0, 0, 0, 0, 0] \<and>
   simd_histogram_8 [16, 16, 16, 16, 16, 16, 16, 16, 16, 16, 16, 16, 16, 16, 16] 15 0 0
     = Inr [0, 0, 0, 0, 0, 0, 0, 0]"
proof -
  have "simd_histogram_8 [16, 16, 16, 16, 16, 16, 16, 16, 16, 16, 16, 16, 16, 16, 16, 16] 16 0 0
     = Inr [16, 0, 0, 0, 0, 0, 0, 0]"
    by (simp add: histogram_eval)
  moreover have
    "simd_histogram_8 [16, 16, 16, 16, 16, 16, 16, 16, 16, 16, 16, 16, 16, 16, 16] 15 0 0
     = Inr [0, 0, 0, 0, 0, 0, 0, 0]"
    by (simp add: histogram_eval)
  ultimately show ?thesis by simp
qed

text \<open>
  Claim C7 (exact selection twice), as the code has it.  The second call works on the
  arrays the first call left, whose suffix still holds input scores, and its search
  may stop at another threshold.  Amended, for \<open>0 < q < n\<close>: when both calls return (on
  the scalar path: with a count other than \<open>0\<close>), both achieve \<open>q\<close>, and every score among
  the first \<open>q\<close> after the second call is still better than or equal to the threshold
  of the first.
\<close>

theorem C7_second_call:
  assumes "length vals = n" "length ids = n" "0 < q" "q < n"
    and "partition C aligned vals ids n q = Inr (T1, q1, vals1, ids1)"
    and "partition C aligned vals1 ids1 n q = Inr (T2, q2, vals2, ids2)"
    and "aligned \<or> q1 \<noteq> 0" "aligned \<or> q2 \<noteq> 0"
  shows "q1 = q \<and> q2 = q \<and> (\<forall>i<q. \<not> cmp C (vals2 ! i) T1)"
proof -
  have qq: "q \<le> q" by simp
  have r1: "partition_fuzzy C aligned vals ids n q q = Inr (T1, q1, vals1, ids1)"
    using assms(5) by (simp add: partition_def)
  note a = partition_fuzzy_Inr [OF assms(1,2,3) qq assms(4) r1]
  have q1: "q1 = q" using a(2,3) assms(7) by auto
  note p1 = selected_props [OF assms(1,2) a(1)]
  have l1: "length vals1 = n" "length ids1 = n" using p1 by simp_all
  have first: "\<not> cmp C (vals1 ! j) T1" if "j < q" for j
    using p1 that q1 by simp
  have r2: "partition_fuzzy C aligned vals1 ids1 n q q = Inr (T2, q2, vals2, ids2)"
    using assms(6) by (simp add: partition_def)
  note b = partition_fuzzy_Inr [OF l1 assms(3) qq assms(4) r2]
  have q2: "q2 = q" using b(2,3) assms(8) by auto
  have le: "q \<le> n" using assms(4) by simp
  have "\<not> cmp C (vals2 ! i) T1" if "i < q" for i
    using second_selection_keeps_threshold [OF l1 le first b(1) [unfolded q2] that] .
  with q1 q2 show ?thesis by simp
qed

text \<open>
  The theorem on scores \<open>[9, 1, 2, 8]\<close> with \<open>q = 2\<close>, on the scalar path.
\<close>

theorem C7_second_call_witness:
  "partition CMax False [9, 1, 2, 8] [0, 1, 2, 3 :: int] 4 2
     = Inr (8, 2, [1, 2, 2, 8], [1, 2, 2, 3]) \<and>
   partition CMax False [1, 2, 2, 8] [1, 2, 2, 3 :: int] 4 2
     = Inr (2, 2, [1, 2, 2, 8], [1, 2, 2, 3]) \<and>
   \<not> cmp CMax ([1, 2, 2, 8] ! 0) 8 \<and> \<not> cmp CMax ([1, 2, 2, 8] ! 1) 8"
proof -
  have r1: "partition CMax False [9, 1, 2, 8] [0, 1, 2, 3 :: int] 4 2
     = Inr (8, 2, [1, 2, 2, 8], [1, 2, 2, 3])"
    by (simp add: partition_def scalar_eval)
  have r2: "partition CMax False [1, 2, 2, 8] [1, 2, 2, 3 :: int] 4 2
     = Inr (2, 2, [1, 2, 2, 8], [1, 2, 2, 3])"
    by (simp add: partition_def scalar_eval)
  have h: "length [9, 1, 2, 8 :: u16] = 4" "length [0, 1, 2, 3 :: int] = 4"
    "(0 :: nat) < 2" "(2 :: nat) < 4" "False \<or> (2 :: nat) \<noteq> 0"
    by simp_all
  from C7_second_call [OF h(1-4) r1 r2 h(5) h(5)] r1 r2 show ?thesis
    by simp
qed

text \<open>
  Claim C7 as stated fails on that input: the first call returns the threshold \<open>8\<close>,
  the second call, on the arrays the first one left, returns \<open>2\<close>.
\<close>

theorem C7_counterexample:
  "partition CMax False [9, 1, 2, 8] [0, 1, 2, 3 :: int] 4 2
     = Inr (8, 2, [1, 2, 2, 8], [1, 2, 2, 3]) \<and>
   partition CMax False [1, 2, 2, 8] [1, 2, 2, 3 :: int] 4 2
     = Inr (2, 2, [1, 2, 2, 8], [1, 2, 2, 3]) \<and>
   (8 :: u16) \<noteq> 2"
proof -
  have "partition CMax False [9, 1, 2, 8] [0, 1, 2, 3 :: int] 4 2
     = Inr (8, 2, [1, 2, 2, 8], [1, 2, 2, 3])"
    by (simp add: partition_def scalar_eval)
  moreover have "partition CMax False [1, 2, 2, 8] [1, 2, 2, 3 :: int] 4 2
     = Inr (2, 2, [1, 2, 2, 8], [1, 2, 2, 3])"
    by (simp add: partition_def scalar_eval)
  ultimately show ?thesis by simp
qed

text \<open>
  Claim C8 (precondition failure), as the code has it.  Only the scalar path checks
  \<open>n \<ge> 3\<close>; the vector path has no such check and serves shorter arrays.  Amended: the
  call throws the precondition error exactly when it takes the scalar path with
  \<open>q_min > 0\<close>, \<open>q_max < n\<close> and \<open>n < 3\<close>; a call with \<open>q_min = 0\<close> or \<open>q_max \<ge> n\<close> returns
  without error for every \<open>n\<close>.
\<close>

theorem C8_precondition_error:
  "(partition_fuzzy C aligned vals ids n q_min q_max = Inl FaissException \<longleftrightarrow>
      \<not> aligned \<and> 0 < q_min \<and> q_max < n \<and> n < 3) \<and>
   (q_min = 0 \<or> n \<le> q_max \<longrightarrow>
      (\<exists>r. partition_fuzzy C aligned vals ids n q_min q_max = Inr r))"
proof -
  have 1: "\<not> aligned \<and> 0 < q_min \<and> q_max < n \<and> n < 3"
    if "partition_fuzzy C aligned vals ids n q_min q_max = Inl FaissException"
    using that partition_fuzzy_median3_error [of C vals ids n q_min q_max]
      simd_partition_fuzzy_error [of C vals ids n q_min q_max]
    by (auto simp: partition_fuzzy_def split: if_splits)
  have 2: "partition_fuzzy C aligned vals ids n q_min q_max = Inl FaissException"
    if "\<not> aligned \<and> 0 < q_min \<and> q_max < n \<and> n < 3"
    using that by (simp add: partition_fuzzy_def partition_fuzzy_median3_def)
  have 3: "\<exists>r. partition_fuzzy C aligned vals ids n q_min q_max = Inr r"
    if "q_min = 0 \<or> n \<le> q_max"
    using that
    by (cases "find_minimax vals n")
      (auto simp: partition_fuzzy_def partition_fuzzy_median3_def simd_partition_fuzzy_def
        simd_partition_fuzzy_with_bounds_def)
  show ?thesis using 1 2 3 by blast
qed

text \<open>
  The theorem on a two-element array, on the scalar path.
\<close>

theorem C8_precondition_error_witness:
  "partition_fuzzy CMax False [1, 2] [0, 1 :: int] 2 1 1 = Inl FaissException \<and>
   (\<exists>r. partition_fuzzy CMax False [1, 2] [0, 1 :: int] 2 0 1 = Inr r)"
  using C8_precondition_error [of CMax False "[1, 2]" "[0, 1 :: int]" 2 1 1]
    C8_precondition_error [of CMax False "[1, 2]" "[0, 1 :: int]" 2 0 1]
  by simp

text \<open>
  Claim C8 as stated fails on the vector path: with \<open>n = 2\<close>, \<open>q_min = q_max = 1\<close> the
  call returns a result.
\<close>

theorem C8_counterexample:
  "partition_fuzzy CMax True [1, 2] [0, 1 :: int] 2 1 1 = Inr (2, 1, [1, 2], [0, 1]) \<and>
   (2 :: nat) < 3 \<and> (0 :: nat) < 1 \<and> (1 :: nat) < 2"
  by (simp add: simd_eval)

text \<open>
  Claim C9 (the internal assertions never fail), at an input where they do.  With
  scores \<open>[5, 0, 0, 5]\<close>, \<open>q_min = q_max = 1\<close> and select-smallest, the scalar bisection
  starts at the median \<open>5\<close>, finds two scores below it, finds no score strictly between
  \<open>0\<close> and \<open>5\<close> and stops without a target.  The correction forces \<open>q = 1\<close> and steps the
  threshold to \<open>4\<close>; the compaction then keeps both zeros and never sees a \<open>4\<close>, so
  \<^verbatim>\<open>assert(n_eq == 0)\<close> fails (and \<^verbatim>\<open>wp == q\<close> would).
\<close>

theorem C9_scalar_assertion_fails:
  "partition_fuzzy CMax False [5, 0, 0, 5] [10, 11, 12, 13 :: int] 4 1 1 = Inl AssertionFailure"
  by (simp add: scalar_eval del: upt_Suc)

text \<open>
  Claim C10 (frame of the compaction), at an input where the code departs from it.
  The claim says that the compaction of the non-trivial path writes no position at an
  index \<open>\<ge> q\<close>.  On the scalar path with scores \<open>[5, 0, 0, 5]\<close>, identifiers
  \<open>[10, 11, 12, 13]\<close>, \<open>q_min = q_max = 1\<close> and select-smallest, the bisection leaves the
  loop without a target (threshold \<open>5\<close>, two scores below it, \<open>q = 0\<close>); the correction
  forces \<open>q = 1\<close> and the threshold \<open>4\<close> with one tie allowed.  The compaction then copies
  both zeros to the front: it stores the identifier \<open>12\<close> at index \<open>1 \<ge> q\<close>, where \<open>11\<close>
  was, and ends with the write position \<open>2\<close> and the tie budget unused, against
  \<^verbatim>\<open>assert(n_eq == 0)\<close> and \<^verbatim>\<open>assert(wp == q)\<close>.
\<close>

theorem C10_compress_writes_past_q:
  "bisect 200 CMax [5, 0, 0, 5] 4 1 1 (neutral (Crev CMax)) (neutral CMax)
      (median3 ([5, 0, 0, 5] ! 0) ([5, 0, 0, 5] ! (4 div 2)) ([5, 0, 0, 5] ! (4 - 1))) (0, 0)
     = (5, 2, 2, 0) \<and>
   nextafter (Crev CMax) 5 = 4 \<and>
   fold (compress_step CMax 4) [0..<4] ([5, 0, 0, 5], [10, 11, 12, 13 :: int], 0, 1)
     = ([0, 0, 0, 5], [11, 12, 12, 13], 2, 1) \<and>
   [11, 12, 12, 13 :: int] ! 1 \<noteq> [10, 11, 12, 13] ! 1"
proof -
  have "fold (compress_step CMax 4) [0..<4] ([5, 0, 0, 5], [10, 11, 12, 13 :: int], 0, 1)
     = ([0, 0, 0, 5], [11, 12, 12, 13], 2, 1)"
    by (simp add: compress_fold cnorm_def)
  then show ?thesis
    by (simp add: scalar_eval del: upt_Suc)
qed

end
